theory Spec2Isabelle
  imports Complex_Main "HOL-Library.Char_ord" "HOL-Library.List_Lexorder" "HOL-Library.Log_Nat"
    "HOL-Library.Word"
begin

section \<open>Shared Python primitives\<close>

text \<open>
  Both scripts are Python. Exceptions are values of \<open>py_error\<close>; a function that can
  raise returns \<open>py_error + 'a\<close> with \<open>Inl\<close> for the exception.
\<close>

datatype py_error = ValueError | ZeroDivisionError | OverflowError | KeyError | OSError
  | SystemExit int

text \<open>\<^verbatim>\<open>collections.Counter\<close> and \<^verbatim>\<open>defaultdict(int)\<close>: a dict keeps its keys in
  the order of first insertion, so a counter is an association list in that order.\<close>

fun incr :: "'a \<Rightarrow> ('a \<times> nat) list \<Rightarrow> ('a \<times> nat) list" where
  "incr k [] = [(k, 1)]"
| "incr k ((k', c) # kvs) = (if k = k' then (k', Suc c) # kvs else (k', c) # incr k kvs)"

definition counter :: "'a list \<Rightarrow> ('a \<times> nat) list" where
  "counter xs = fold incr xs []"

text \<open>\<^verbatim>\<open>Counter.most_common(n)\<close>: the items sorted by descending count, the sort being
  stable (equal counts stay in first-encountered order), cut to the first \<open>n\<close>; without
  an argument all items; \<open>n \<le> 0\<close> gives the empty list.\<close>

definition most_common :: "int option \<Rightarrow> ('a \<times> nat) list \<Rightarrow> ('a \<times> nat) list" where
  "most_common n items =
     (let ranked = sort_key (\<lambda>kc. - int (snd kc)) items
      in case n of None \<Rightarrow> ranked | Some m \<Rightarrow> take (nat m) ranked)"

text \<open>\<^verbatim>\<open>xs[::step]\<close>: every \<open>step\<close>-th element from the front for a positive step, from
  the back for a negative one; a zero step raises \<^verbatim>\<open>ValueError\<close>.\<close>

fun every_nth :: "nat \<Rightarrow> 'a list \<Rightarrow> 'a list" where
  "every_nth k [] = []"
| "every_nth k (x # xs) = x # every_nth k (drop (k - 1) xs)"

definition slice_step :: "'a list \<Rightarrow> int \<Rightarrow> py_error + 'a list" where
  "slice_step xs step =
     (if step = 0 then Inl ValueError
      else if 0 < step then Inr (every_nth (nat step) xs)
      else Inr (every_nth (nat (- step)) (rev xs)))"

section \<open>Python floats\<close>

text \<open>
  A Python float is an IEEE 754 binary64 number. \<open>Float q\<close> is the finite float of value
  \<open>q\<close>, a rational \<open>m * 2 ^ e\<close> with \<open>\<bar>m\<bar> < 2 ^ 53\<close> and \<open>- 1074 \<le> e \<le> 971\<close>; the
  other values are the two infinities and the nan. The two zeros are one value here: they
  compare equal, and the program never divides by a zero nor takes its sign. The integer
  \<open>0\<close> that the program returns in place of a float for an empty commit list is
  \<open>Float 0\<close> as well.
\<close>

datatype pyfloat = Float rat | PosInf | NegInf | NaN

instantiation pyfloat :: zero
begin

definition zero_pyfloat :: pyfloat where
  "zero_pyfloat = Float 0"

instance ..

end

text \<open>Rounding to the nearest integer, a tie going to the even neighbour.\<close>

definition round_half_even :: "rat \<Rightarrow> int" where
  "round_half_even y =
     (let f = \<lfloor>y\<rfloor>; d = y - of_int f
      in if d < 1 / 2 then f else if 1 / 2 < d then f + 1 else if even f then f else f + 1)"

text \<open>\<open>ilog2 x\<close> is the exponent of the power of two at or below a positive \<open>x\<close>. The
  floats around \<open>x\<close> are the multiples of \<open>2 ^ e\<close> for \<open>e = ilog2 \<bar>x\<bar> - 52\<close>, and of
  \<open>2 ^ - 1074\<close> in the subnormal range: \<open>e\<close> is \<open>exponent_of x\<close>, and \<open>nearest x\<close> is
  the multiple nearest to \<open>x\<close>, a tie going to the even multiple. \<open>fl x\<close> is the float an operation with the exact result
  \<open>x\<close> returns: the nearest one, or an infinity from \<open>2 ^ 1024\<close> on.\<close>

definition ilog2 :: "rat \<Rightarrow> int" where
  "ilog2 x = (if 1 \<le> x then bitlen \<lfloor>x\<rfloor> - 1 else - bitlen (\<lceil>1 / x\<rceil> - 1))"

definition exponent_of :: "rat \<Rightarrow> int" where
  "exponent_of x = max (ilog2 \<bar>x\<bar> - 52) (- 1074)"

definition nearest :: "rat \<Rightarrow> rat" where
  "nearest x =
     (if x = 0 then 0
      else of_int (round_half_even (x / 2 powi exponent_of x)) * 2 powi exponent_of x)"

definition fl :: "rat \<Rightarrow> pyfloat" where
  "fl x =
     (let r = nearest x
      in if 1024 \<le> ilog2 \<bar>r\<bar> then (if 0 < r then PosInf else NegInf) else Float r)"

text \<open>Negation, addition, subtraction and multiplication of floats never raise.\<close>

fun fneg :: "pyfloat \<Rightarrow> pyfloat" where
  "fneg (Float x) = Float (- x)"
| "fneg PosInf = NegInf"
| "fneg NegInf = PosInf"
| "fneg NaN = NaN"

fun fadd :: "pyfloat \<Rightarrow> pyfloat \<Rightarrow> pyfloat" where
  "fadd (Float x) (Float y) = fl (x + y)"
| "fadd NaN b = NaN"
| "fadd a NaN = NaN"
| "fadd PosInf NegInf = NaN"
| "fadd NegInf PosInf = NaN"
| "fadd PosInf b = PosInf"
| "fadd NegInf b = NegInf"
| "fadd (Float x) b = b"

definition fsub :: "pyfloat \<Rightarrow> pyfloat \<Rightarrow> pyfloat" where
  "fsub a b = fadd a (fneg b)"

fun fsign :: "pyfloat \<Rightarrow> int" where
  "fsign (Float x) = (if 0 < x then 1 else if x < 0 then - 1 else 0)"
| "fsign PosInf = 1"
| "fsign NegInf = - 1"
| "fsign NaN = 0"

fun fmul :: "pyfloat \<Rightarrow> pyfloat \<Rightarrow> pyfloat" where
  "fmul (Float x) (Float y) = fl (x * y)"
| "fmul NaN b = NaN"
| "fmul a NaN = NaN"
| "fmul a b =
     (if fsign a * fsign b = 0 then NaN else if 0 < fsign a * fsign b then PosInf else NegInf)"

text \<open>Division by a zero raises \<^verbatim>\<open>ZeroDivisionError\<close>, whatever the dividend.\<close>

fun quotient :: "pyfloat \<Rightarrow> pyfloat \<Rightarrow> pyfloat" where
  "quotient (Float x) (Float y) = fl (x / y)"
| "quotient NaN b = NaN"
| "quotient a NaN = NaN"
| "quotient (Float x) b = Float 0"
| "quotient a (Float y) = (if 0 < fsign a * fsign (Float y) then PosInf else NegInf)"
| "quotient a b = NaN"

definition fdiv :: "pyfloat \<Rightarrow> pyfloat \<Rightarrow> py_error + pyfloat" where
  "fdiv a b = (if b = Float 0 then Inl ZeroDivisionError else Inr (quotient a b))"

text \<open>\<^verbatim>\<open>a / b\<close> on two integers is the float nearest to the quotient; a zero divisor
  raises \<^verbatim>\<open>ZeroDivisionError\<close>, a quotient beyond the floats \<^verbatim>\<open>OverflowError\<close>.\<close>

definition int_truediv :: "int \<Rightarrow> int \<Rightarrow> py_error + pyfloat" where
  "int_truediv a b =
     (if b = 0 then Inl ZeroDivisionError
      else (case fl (of_int a / of_int b) of
              Float q \<Rightarrow> Inr (Float q)
            | _ \<Rightarrow> Inl OverflowError))"

text \<open>The comparisons \<^verbatim>\<open><\<close>, \<^verbatim>\<open>==\<close> and \<^verbatim>\<open>>=\<close>; every comparison with a nan is false.
  \<^verbatim>\<open>min(a, b)\<close> and \<^verbatim>\<open>max(a, b)\<close> keep the first argument unless the second is
  strictly smaller, or larger.\<close>

fun flt :: "pyfloat \<Rightarrow> pyfloat \<Rightarrow> bool" where
  "flt (Float x) (Float y) = (x < y)"
| "flt NaN b = False"
| "flt a NaN = False"
| "flt a PosInf = (a \<noteq> PosInf)"
| "flt NegInf b = (b \<noteq> NegInf)"
| "flt a b = False"

definition feq :: "pyfloat \<Rightarrow> pyfloat \<Rightarrow> bool" where
  "feq a b = (a \<noteq> NaN \<and> a = b)"

definition fge :: "pyfloat \<Rightarrow> pyfloat \<Rightarrow> bool" where
  "fge a b = (flt b a \<or> feq a b)"

definition pymin :: "pyfloat \<Rightarrow> pyfloat \<Rightarrow> pyfloat" where
  "pymin a b = (if flt b a then b else a)"

definition pymax :: "pyfloat \<Rightarrow> pyfloat \<Rightarrow> pyfloat" where
  "pymax a b = (if flt a b then b else a)"

text \<open>\<^verbatim>\<open>x % 1.0\<close>: the remainder of the truncating division is exact; a negative one is
  moved up by 1.0, and that sum is rounded. An infinity has no remainder.\<close>

fun fmod1 :: "pyfloat \<Rightarrow> pyfloat" where
  "fmod1 (Float x) =
     (let m = x - of_int (if 0 \<le> x then \<lfloor>x\<rfloor> else \<lceil>x\<rceil>)
      in if m < 0 then fl (m + 1) else Float m)"
| "fmod1 a = NaN"

text \<open>\<^verbatim>\<open>round(x, n)\<close> for \<open>n \<ge> 0\<close>: the decimal with \<open>n\<close> places nearest to the
  float's value, a tie going to the even last digit, and then the float nearest to that
  decimal. Infinities and nan round to themselves. The format \<^verbatim>\<open>:.nf\<close> prints the
  same decimal; \<open>fixed n x\<close> is the number printed.\<close>

definition decimal :: "nat \<Rightarrow> rat \<Rightarrow> rat" where
  "decimal n x = of_int (round_half_even (x * 10 ^ n)) / 10 ^ n"

fun py_round :: "nat \<Rightarrow> pyfloat \<Rightarrow> py_error + pyfloat" where
  "py_round n (Float x) =
     (case fl (decimal n x) of Float r \<Rightarrow> Inr (Float r) | _ \<Rightarrow> Inl OverflowError)"
| "py_round n a = Inr a"

fun fixed :: "nat \<Rightarrow> pyfloat \<Rightarrow> pyfloat" where
  "fixed n (Float x) = Float (decimal n x)"
| "fixed n a = a"

section \<open>Palette extractor\<close>

text \<open>A pixel of an image in mode \<^verbatim>\<open>RGB\<close> has three channels of 8 bits each.\<close>

type_synonym rgb = "8 word \<times> 8 word \<times> 8 word"

definition valid_rgb :: "rgb \<Rightarrow> bool" where
  "valid_rgb c = (case c of (r, g, b) \<Rightarrow> unat r \<le> 255 \<and> unat g \<le> 255 \<and> unat b \<le> 255)"

text \<open>\<^verbatim>\<open>get_dominant_colors(image_path, num_colors, quality)\<close>. The image library is
  external: its result, the pixel list of the resized RGB image in raster order, is the
  input, \<open>None\<close> when opening, resizing or converting raised. Any exception inside the
  \<^verbatim>\<open>try\<close> block (also the \<^verbatim>\<open>ValueError\<close> of a zero slice step) prints and exits
  with status 1.\<close>

definition get_dominant_colors :: "rgb list option \<Rightarrow> int \<Rightarrow> int \<Rightarrow> py_error + rgb list" where
  "get_dominant_colors img num_colors quality =
     (case img of
        None \<Rightarrow> Inl (SystemExit 1)
      | Some pixels \<Rightarrow>
          (case slice_step pixels quality of
             Inl e \<Rightarrow> Inl (SystemExit 1)
           | Inr sampled \<Rightarrow>
               Inr (map fst (most_common (Some num_colors) (counter sampled)))))"

text \<open>\<^verbatim>\<open>colorsys.rgb_to_hsv\<close>, operation by operation; \<^verbatim>\<open>max(r, g, b)\<close> and
  \<^verbatim>\<open>min(r, g, b)\<close> go through their arguments from the left.\<close>

definition rgb_to_hsv :: "pyfloat \<Rightarrow> pyfloat \<Rightarrow> pyfloat \<Rightarrow> py_error + (pyfloat \<times> pyfloat \<times> pyfloat)" where
  "rgb_to_hsv r g b =
     (let maxc = pymax (pymax r g) b;
          minc = pymin (pymin r g) b;
          rangec = fsub maxc minc;
          v = maxc
      in if feq minc maxc then Inr (Float 0, Float 0, v)
         else
           (case fdiv rangec maxc of
              Inl e \<Rightarrow> Inl e
            | Inr s \<Rightarrow>
           (case fdiv (fsub maxc r) rangec of
              Inl e \<Rightarrow> Inl e
            | Inr rc \<Rightarrow>
           (case fdiv (fsub maxc g) rangec of
              Inl e \<Rightarrow> Inl e
            | Inr gc \<Rightarrow>
           (case fdiv (fsub maxc b) rangec of
              Inl e \<Rightarrow> Inl e
            | Inr bc \<Rightarrow>
           (let h = (if feq r maxc then fsub bc gc
                     else if feq g maxc then fsub (fadd (Float 2) rc) bc
                     else fsub (fadd (Float 4) gc) rc)
            in case fdiv h (Float 6) of
                 Inl e \<Rightarrow> Inl e
               | Inr h' \<Rightarrow> Inr (fmod1 h', s, v)))))))"

text \<open>The decision chain of \<^verbatim>\<open>get_color_name\<close>, on the hue in degrees, the saturation
  and the value. The literals \<^verbatim>\<open>0.1\<close> and \<^verbatim>\<open>0.9\<close> are the floats nearest to one
  tenth and nine tenths.\<close>

definition name_of_hsv :: "pyfloat \<Rightarrow> pyfloat \<Rightarrow> pyfloat \<Rightarrow> string" where
  "name_of_hsv h s v =
     (if flt s (fl (1 / 10)) then
        (if flt (fl (9 / 10)) v then ''White''
         else if flt v (fl (1 / 10)) then ''Black''
         else ''Gray'')
      else if flt h (Float 15) \<or> fge h (Float 345) then ''Red''
      else if flt h (Float 45) then ''Orange''
      else if flt h (Float 75) then ''Yellow''
      else if flt h (Float 150) then ''Green''
      else if flt h (Float 210) then ''Cyan''
      else if flt h (Float 270) then ''Blue''
      else if flt h (Float 330) then ''Magenta''
      else ''Red'')"

text \<open>The hue in degrees, the saturation and the value that \<^verbatim>\<open>get_color_name\<close>
  computes for a pixel, and the name it returns.\<close>

definition hsv_degrees :: "rgb \<Rightarrow> py_error + (pyfloat \<times> pyfloat \<times> pyfloat)" where
  "hsv_degrees c =
     (case c of (r, g, b) \<Rightarrow>
        (case int_truediv (uint r) 255 of
           Inl e \<Rightarrow> Inl e
         | Inr r' \<Rightarrow>
        (case int_truediv (uint g) 255 of
           Inl e \<Rightarrow> Inl e
         | Inr g' \<Rightarrow>
        (case int_truediv (uint b) 255 of
           Inl e \<Rightarrow> Inl e
         | Inr b' \<Rightarrow>
        (case rgb_to_hsv r' g' b' of
           Inl e \<Rightarrow> Inl e
         | Inr (h, s, v) \<Rightarrow> Inr (fmul h (Float 360), s, v))))))"

definition get_color_name :: "rgb \<Rightarrow> py_error + string" where
  "get_color_name c =
     (case hsv_degrees c of
        Inl e \<Rightarrow> Inl e
      | Inr (h, s, v) \<Rightarrow> Inr (name_of_hsv h s v))"

text \<open>Position of the first occurrence of an element, used to state tie-breaking;
  \<open>firsts\<close> lists the distinct elements in order of first occurrence.\<close>

fun first_index :: "'a list \<Rightarrow> 'a \<Rightarrow> nat" where
  "first_index [] x = 0"
| "first_index (y # ys) x = (if x = y then 0 else Suc (first_index ys x))"

definition firsts :: "'a list \<Rightarrow> 'a list" where
  "firsts xs = rev (remdups (rev xs))"

text \<open>The names the classification can return, and the hue table of the specification:
  half-open ranges \<open>[lo, hi)\<close> in degrees, the last two rows closing the circle on Red.
  The thresholds of the saturation and value tests are the floats that the literals
  denote.\<close>

definition color_names :: "string list" where
  "color_names = [''White'', ''Black'', ''Gray'', ''Red'', ''Orange'', ''Yellow'', ''Green'',
                  ''Cyan'', ''Blue'', ''Magenta'']"

definition hue_ranges :: "(rat \<times> rat \<times> string) list" where
  "hue_ranges =
     [(0, 15, ''Red''), (15, 45, ''Orange''), (45, 75, ''Yellow''), (75, 150, ''Green''),
      (150, 210, ''Cyan''), (210, 270, ''Blue''), (270, 330, ''Magenta''),
      (330, 345, ''Red''), (345, 360, ''Red'')]"

definition in_range :: "rat \<Rightarrow> rat \<times> rat \<times> string \<Rightarrow> bool" where
  "in_range h row = (case row of (lo, hi, n) \<Rightarrow> lo \<le> h \<and> h < hi)"

definition spec_color_name :: "rat \<Rightarrow> pyfloat \<Rightarrow> pyfloat \<Rightarrow> string option" where
  "spec_color_name h s v =
     (if flt s (fl (1 / 10)) then
        Some (if flt (fl (9 / 10)) v then ''White''
              else if flt v (fl (1 / 10)) then ''Black'' else ''Gray'')
      else map_option (\<lambda>row. snd (snd row)) (find (in_range h) hue_ranges))"

section \<open>Commit analyzer: strings, numbers and patterns\<close>

text \<open>A string is the list of its characters, a character being its code point, below
  256. \<^verbatim>\<open>str.isspace\<close> holds of the codes 9 to 13, 28 to 32, 133 and 160, and
  \<^verbatim>\<open>str.strip\<close> drops these characters from both ends.\<close>

definition py_space :: "char \<Rightarrow> bool" where
  "py_space c =
     (let n = (of_char c :: nat)
      in (9 \<le> n \<and> n \<le> 13) \<or> (28 \<le> n \<and> n \<le> 32) \<or> n = 133 \<or> n = 160)"

definition strip_by :: "(char \<Rightarrow> bool) \<Rightarrow> string \<Rightarrow> string" where
  "strip_by p s = rev (dropWhile p (rev (dropWhile p s)))"

definition strip :: "string \<Rightarrow> string" where
  "strip s = strip_by py_space s"

text \<open>\<^verbatim>\<open>s.split(sep)\<close> for a separator of one character: always at least one field.\<close>

fun split_chr :: "char \<Rightarrow> string \<Rightarrow> string list" where
  "split_chr sep [] = [[]]"
| "split_chr sep (c # cs) =
     (if c = sep then [] # split_chr sep cs
      else (case split_chr sep cs of [] \<Rightarrow> [[c]] | w # ws \<Rightarrow> (c # w) # ws))"

text \<open>\<^verbatim>\<open>int(s)\<close> on a string: surrounding whitespace is dropped, one sign is allowed,
  then decimal digits, where single underscores may stand between digits. The whitespace
  of \<^verbatim>\<open>int\<close> is narrower than that of \<^verbatim>\<open>str.strip\<close>: the separators 28 to 31 are
  not part of it. A number of more than 4300 digits is refused. Anything else raises
  \<^verbatim>\<open>ValueError\<close>, which is \<open>None\<close> here.\<close>

definition int_space :: "char \<Rightarrow> bool" where
  "int_space c =
     (let n = (of_char c :: nat)
      in (9 \<le> n \<and> n \<le> 13) \<or> n = 32 \<or> n = 133 \<or> n = 160)"

definition is_digit :: "char \<Rightarrow> bool" where
  "is_digit c = (let n = (of_char c :: nat) in 48 \<le> n \<and> n \<le> 57)"

definition digit_val :: "char \<Rightarrow> nat" where
  "digit_val c = of_char c - 48"

fun digits_acc :: "nat \<Rightarrow> string \<Rightarrow> nat option" where
  "digits_acc acc [] = Some acc"
| "digits_acc acc (c # cs) =
     (if is_digit c then digits_acc (10 * acc + digit_val c) cs
      else if c = CHR ''_'' then
        (case cs of [] \<Rightarrow> None | d # ds \<Rightarrow> if is_digit d then digits_acc acc cs else None)
      else None)"

definition unsigned_int :: "string \<Rightarrow> nat option" where
  "unsigned_int body =
     (case body of
        [] \<Rightarrow> None
      | c # cs \<Rightarrow>
          if is_digit c \<and> length (filter is_digit body) \<le> 4300 then digits_acc 0 body
          else None)"

definition py_int :: "string \<Rightarrow> int option" where
  "py_int s =
     (case strip_by int_space s of
        [] \<Rightarrow> None
      | c # cs \<Rightarrow>
          if c = CHR ''-'' then map_option (\<lambda>n. - int n) (unsigned_int cs)
          else if c = CHR ''+'' then map_option int (unsigned_int cs)
          else map_option int (unsigned_int (c # cs)))"

text \<open>\<^verbatim>\<open>max(items, key=lambda x: x[1])\<close>: the first item with the largest count;
  \<^verbatim>\<open>ValueError\<close> on an empty sequence.\<close>

fun max_by_count :: "('a \<times> nat) list \<Rightarrow> py_error + ('a \<times> nat)" where
  "max_by_count [] = Inl ValueError"
| "max_by_count (x # xs) = Inr (fold (\<lambda>y best. if snd best < snd y then y else best) xs x)"

text \<open>Regular expressions as far as the analyzer's pattern needs them. \<open>AnyChar\<close> is
  \<^verbatim>\<open>.\<close>, which matches every character but the newline. \<^verbatim>\<open>re.match\<close> succeeds when
  some prefix of the string is matched; it is decided with derivatives.\<close>

datatype regex = Fail | Empty | Lit char | AnyChar | Alt regex regex | Cat regex regex | Rep regex

definition Opt :: "regex \<Rightarrow> regex" where
  "Opt r = Alt r Empty"

definition OneOrMore :: "regex \<Rightarrow> regex" where
  "OneOrMore r = Cat r (Rep r)"

fun lit_string :: "string \<Rightarrow> regex" where
  "lit_string [] = Empty"
| "lit_string (c # cs) = Cat (Lit c) (lit_string cs)"

fun nullable :: "regex \<Rightarrow> bool" where
  "nullable Fail = False"
| "nullable Empty = True"
| "nullable (Lit c) = False"
| "nullable AnyChar = False"
| "nullable (Alt r s) = (nullable r \<or> nullable s)"
| "nullable (Cat r s) = (nullable r \<and> nullable s)"
| "nullable (Rep r) = True"

fun deriv :: "char \<Rightarrow> regex \<Rightarrow> regex" where
  "deriv x Fail = Fail"
| "deriv x Empty = Fail"
| "deriv x (Lit c) = (if x = c then Empty else Fail)"
| "deriv x AnyChar = (if x = CHR 0x0A then Fail else Empty)"
| "deriv x (Alt r s) = Alt (deriv x r) (deriv x s)"
| "deriv x (Cat r s) =
     (if nullable r then Alt (Cat (deriv x r) s) (deriv x s) else Cat (deriv x r) s)"
| "deriv x (Rep r) = Cat (deriv x r) (Rep r)"

fun prefix_match :: "regex \<Rightarrow> string \<Rightarrow> bool" where
  "prefix_match r [] = nullable r"
| "prefix_match r (c # cs) = (nullable r \<or> prefix_match (deriv c r) cs)"

text \<open>The pattern \<^verbatim>\<open>^(feat|fix|docs|style|refactor|test|chore)(\(.+\))?:\<close>. The
  alternatives of group 1 are tried in order, each with the rest of the pattern, so the
  group is the first tag with which the whole pattern matches.\<close>

definition commit_type_tags :: "string list" where
  "commit_type_tags = [''feat'', ''fix'', ''docs'', ''style'', ''refactor'', ''test'', ''chore'']"

definition scope_colon :: regex where
  "scope_colon = Cat (Opt (Cat (Lit CHR ''('') (Cat (OneOrMore AnyChar) (Lit CHR '')'')))) (Lit CHR '':'')"

definition conventional_regex :: regex where
  "conventional_regex = Cat (foldr (\<lambda>t r. Alt (lit_string t) r) commit_type_tags Fail) scope_colon"

definition match_group1 :: "string \<Rightarrow> string option" where
  "match_group1 msg = find (\<lambda>t. prefix_match (Cat (lit_string t) scope_colon) msg) commit_type_tags"

text \<open>\<^verbatim>\<open>Path(filename).suffix\<close> for POSIX paths: the name is the last component that is
  neither empty nor a single dot; the suffix starts at the last dot of the name, unless
  that dot is the first or the last character of the name.\<close>

fun rfind :: "char \<Rightarrow> string \<Rightarrow> nat option" where
  "rfind c [] = None"
| "rfind c (x # xs) =
     (case rfind c xs of Some i \<Rightarrow> Some (Suc i) | None \<Rightarrow> if x = c then Some 0 else None)"

definition path_name :: "string \<Rightarrow> string" where
  "path_name filename =
     (case filter (\<lambda>p. p \<noteq> [] \<and> p \<noteq> ''.'') (split_chr CHR ''/'' filename) of
        [] \<Rightarrow> []
      | p # ps \<Rightarrow> last (p # ps))"

definition path_suffix :: "string \<Rightarrow> string" where
  "path_suffix filename =
     (let n = path_name filename
      in case rfind CHR ''.'' n of
           None \<Rightarrow> []
         | Some i \<Rightarrow> if 0 < i \<and> i + 1 < length n then drop i n else [])"

section \<open>Commit analyzer: retrieval and parsing\<close>

text \<open>A \<^verbatim>\<open>datetime\<close> is observed by the program only through its hour and its
  renderings \<^verbatim>\<open>%A\<close> and \<^verbatim>\<open>%Y-%m-%d\<close>; the record holds these three observations.
  The parser \<^verbatim>\<open>datetime.fromisoformat\<close> belongs to the standard library and is a
  parameter \<open>fromiso\<close> of the functions below, \<open>None\<close> standing for its
  \<^verbatim>\<open>ValueError\<close>.\<close>

record datetime =
  hour :: nat
  weekday :: string
  ymd :: string

text \<open>The dictionaries of a commit and of a file change; the fields carry the prefixes
  \<open>c_\<close> and \<open>f_\<close> before the source's keys.\<close>

record file_change =
  f_name :: string
  f_additions :: int
  f_deletions :: int

record commit =
  c_hash :: string
  c_author :: string
  c_date :: datetime
  c_message :: string
  c_files :: "file_change list"
  c_additions :: int
  c_deletions :: int

text \<open>\<^verbatim>\<open>date.replace(' +', '+')\<close>, scanning from the left.\<close>

fun replace_space_plus :: "string \<Rightarrow> string" where
  "replace_space_plus (a # b # cs) =
     (if a = CHR '' '' \<and> b = CHR ''+'' then CHR ''+'' # replace_space_plus cs
      else a # replace_space_plus (b # cs))"
| "replace_space_plus cs = cs"

definition is_commit_line :: "string \<Rightarrow> bool" where
  "is_commit_line line = (CHR ''|'' \<in> set line \<and> length (split_chr CHR ''|'' line) = 4)"

text \<open>One field of a stat line: the placeholder counts as 0, anything else goes through
  \<^verbatim>\<open>int\<close>.\<close>

definition stat_value :: "string \<Rightarrow> int option" where
  "stat_value field = (if field \<noteq> ''-'' then py_int field else Some 0)"

text \<open>The body of the \<^verbatim>\<open>elif\<close> branch: a line of exactly three tab-separated fields
  updates the current commit; a \<^verbatim>\<open>ValueError\<close> of either conversion is caught before
  anything was updated, and the line is passed over.\<close>

definition parse_stat :: "string \<Rightarrow> commit \<Rightarrow> commit" where
  "parse_stat line cur =
     (case split_chr CHR 0x09 line of
        [additions, deletions, filename] \<Rightarrow>
          (case stat_value additions of
             None \<Rightarrow> cur
           | Some add \<Rightarrow>
               (case stat_value deletions of
                  None \<Rightarrow> cur
                | Some delete \<Rightarrow>
                    cur\<lparr>c_additions := c_additions cur + add,
                        c_deletions := c_deletions cur + delete,
                        c_files := c_files cur @
                          [\<lparr>f_name = filename, f_additions = add, f_deletions = delete\<rparr>]\<rparr>))
      | _ \<Rightarrow> cur)"

text \<open>The loop state is the current commit and the list \<^verbatim>\<open>self.commits\<close>. An
  unparsable date on a commit line raises out of the loop.\<close>

type_synonym fetch_state = "commit option \<times> commit list"

definition flush :: "fetch_state \<Rightarrow> commit list" where
  "flush st = (case st of (None, commits) \<Rightarrow> commits | (Some c, commits) \<Rightarrow> commits @ [c])"

definition fetch_step :: "(string \<Rightarrow> datetime option) \<Rightarrow> string \<Rightarrow> fetch_state \<Rightarrow> py_error + fetch_state" where
  "fetch_step fromiso line st =
     (if is_commit_line line then
        (case split_chr CHR ''|'' line of
           [hash_val, author, date, message] \<Rightarrow>
             (case fromiso (replace_space_plus date) of
                None \<Rightarrow> Inl ValueError
              | Some d \<Rightarrow>
                  Inr (Some \<lparr>c_hash = hash_val, c_author = author, c_date = d,
                             c_message = message, c_files = [], c_additions = 0,
                             c_deletions = 0\<rparr>,
                       flush st))
         | _ \<Rightarrow> Inl ValueError)
      else if strip line \<noteq> [] \<and> fst st \<noteq> None then
        Inr (map_option (parse_stat line) (fst st), snd st)
      else Inr st)"

fun fetch_lines :: "(string \<Rightarrow> datetime option) \<Rightarrow> string list \<Rightarrow> fetch_state \<Rightarrow> py_error + fetch_state" where
  "fetch_lines fromiso [] st = Inr st"
| "fetch_lines fromiso (l # ls) st =
     (case fetch_step fromiso l st of Inl e \<Rightarrow> Inl e | Inr st' \<Rightarrow> fetch_lines fromiso ls st')"

definition parse_log :: "(string \<Rightarrow> datetime option) \<Rightarrow> string \<Rightarrow> py_error + commit list" where
  "parse_log fromiso output =
     (case fetch_lines fromiso (split_chr CHR 0x0A output) (None, []) of
        Inl e \<Rightarrow> Inl e
      | Inr st \<Rightarrow> Inr (flush st))"

section \<open>Commit analyzer: aggregation and reporting\<close>

record frequency_analysis =
  by_hour :: "(nat \<times> nat) list"
  by_day :: "(string \<times> nat) list"
  by_date :: "(string \<times> nat) list"

definition analyze_commit_frequency :: "commit list \<Rightarrow> frequency_analysis" where
  "analyze_commit_frequency commits =
     \<lparr>by_hour = sort_key fst (counter (map (\<lambda>c. hour (c_date c)) commits)),
      by_day = counter (map (\<lambda>c. weekday (c_date c)) commits),
      by_date = sort_key fst (counter (map (\<lambda>c. ymd (c_date c)) commits))\<rparr>"

record message_analysis =
  total_commits :: nat
  avg_message_length :: pyfloat
  conventional_commits :: nat
  conventional_percentage :: pyfloat
  commit_types :: "(string \<times> nat) list"

text \<open>The loop of \<^verbatim>\<open>analyze_commit_messages\<close> carries the list of message lengths,
  the number of conventional commits and the dictionary \<^verbatim>\<open>patterns\<close>. The average
  and the percentage are floats, or the integer 0 for no commits.\<close>

definition message_step :: "commit \<Rightarrow> nat list \<times> nat \<times> (string \<times> nat) list \<Rightarrow> nat list \<times> nat \<times> (string \<times> nat) list" where
  "message_step c acc =
     (case acc of (message_lengths, conventional, patterns) \<Rightarrow>
        (case match_group1 (c_message c) of
           None \<Rightarrow> (message_lengths @ [length (c_message c)], conventional, patterns)
         | Some commit_type \<Rightarrow>
             (message_lengths @ [length (c_message c)], Suc conventional,
              incr commit_type patterns)))"

definition analyze_commit_messages :: "commit list \<Rightarrow> py_error + message_analysis" where
  "analyze_commit_messages commits =
     (case fold message_step commits ([], 0, map (\<lambda>t. (t, 0)) commit_type_tags) of
        (message_lengths, conventional, patterns) \<Rightarrow>
          (case (if message_lengths \<noteq> []
                 then int_truediv (int (sum_list message_lengths)) (int (length message_lengths))
                 else Inr 0) of
             Inl e \<Rightarrow> Inl e
           | Inr avg \<Rightarrow>
               (case (if commits \<noteq> []
                      then (case int_truediv (int conventional) (int (length commits)) of
                              Inl e \<Rightarrow> Inl e | Inr q \<Rightarrow> Inr (fmul q (Float 100)))
                      else Inr 0) of
                  Inl e \<Rightarrow> Inl e
                | Inr pct \<Rightarrow>
                    Inr \<lparr>total_commits = length commits, avg_message_length = avg,
                         conventional_commits = conventional, conventional_percentage = pct,
                         commit_types = patterns\<rparr>)))"

record file_analysis =
  total_additions :: int
  total_deletions :: int
  net_lines :: int
  avg_additions_per_commit :: pyfloat
  avg_deletions_per_commit :: pyfloat
  file_extensions :: "(string \<times> nat) list"
  most_changed_files :: "(string \<times> nat) list"

text \<open>The inner loop over the files of one commit: every file name is counted; its
  extension is counted only when it is not empty.\<close>

definition file_step :: "file_change \<Rightarrow> (string \<times> nat) list \<times> (string \<times> nat) list \<Rightarrow> (string \<times> nat) list \<times> (string \<times> nat) list" where
  "file_step file acc =
     (case acc of (extensions, changed) \<Rightarrow>
        (let filename = f_name file; ext = path_suffix filename
         in (if ext \<noteq> [] then incr ext extensions else extensions,
             incr filename changed)))"

definition change_step :: "commit \<Rightarrow> int \<times> int \<times> (string \<times> nat) list \<times> (string \<times> nat) list \<Rightarrow> int \<times> int \<times> (string \<times> nat) list \<times> (string \<times> nat) list" where
  "change_step c acc =
     (case acc of (total_add, total_del, counts) \<Rightarrow>
        (total_add + c_additions c, total_del + c_deletions c, fold file_step (c_files c) counts))"

definition analyze_file_changes :: "commit list \<Rightarrow> py_error + file_analysis" where
  "analyze_file_changes commits =
     (case fold change_step commits (0, 0, [], []) of
        (total_add, total_del, exts, changed) \<Rightarrow>
          (case (if commits \<noteq> [] then int_truediv total_add (int (length commits))
                 else Inr 0) of
             Inl e \<Rightarrow> Inl e
           | Inr avg_add \<Rightarrow>
               (case (if commits \<noteq> [] then int_truediv total_del (int (length commits))
                      else Inr 0) of
                  Inl e \<Rightarrow> Inl e
                | Inr avg_del \<Rightarrow>
                    Inr \<lparr>total_additions = total_add, total_deletions = total_del,
                         net_lines = total_add - total_del,
                         avg_additions_per_commit = avg_add,
                         avg_deletions_per_commit = avg_del,
                         file_extensions = most_common (Some 10) exts,
                         most_changed_files = most_common (Some 10) changed\<rparr>)))"

record author_stat =
  s_commits :: nat
  s_additions :: int
  s_deletions :: int

record author_analysis =
  total_authors :: nat
  author_commits :: "(string \<times> nat) list"
  author_stats :: "(string \<times> author_stat) list"

fun add_stat :: "string \<Rightarrow> int \<Rightarrow> int \<Rightarrow> (string \<times> author_stat) list \<Rightarrow> (string \<times> author_stat) list" where
  "add_stat a add del [] = [(a, \<lparr>s_commits = 1, s_additions = add, s_deletions = del\<rparr>)]"
| "add_stat a add del ((k, s) # kvs) =
     (if a = k
      then (k, \<lparr>s_commits = Suc (s_commits s), s_additions = s_additions s + add,
                s_deletions = s_deletions s + del\<rparr>) # kvs
      else (k, s) # add_stat a add del kvs)"

definition analyze_authors :: "commit list \<Rightarrow> author_analysis" where
  "analyze_authors commits =
     (let authors = counter (map c_author commits);
          stats = fold (\<lambda>c. add_stat (c_author c) (c_additions c) (c_deletions c)) commits []
      in \<lparr>total_authors = length authors,
          author_commits = most_common None authors,
          author_stats = stats\<rparr>)"

text \<open>\<^verbatim>\<open>get_productivity_score\<close>: \<open>days\<close> is the analyzer's window, an integer that
  the command line does not restrict. The score of an empty commit list is the integer 0.
  The literal \<^verbatim>\<open>0.3\<close> is the float nearest to three tenths; the sum is taken from
  the left.\<close>

definition get_productivity_score :: "int \<Rightarrow> commit list \<Rightarrow> py_error + pyfloat" where
  "get_productivity_score days commits =
     (if commits = [] then Inr 0
      else
        (case int_truediv (int (length commits)) days of
           Inl e \<Rightarrow> Inl e
         | Inr per_day \<Rightarrow>
             (let commit_score = pymin (fmul per_day (Float 10)) (Float 40)
              in case analyze_commit_messages commits of
                   Inl e \<Rightarrow> Inl e
                 | Inr msg_analysis \<Rightarrow>
                     (let message_score = fmul (conventional_percentage msg_analysis) (fl (3 / 10))
                      in case analyze_file_changes commits of
                           Inl e \<Rightarrow> Inl e
                         | Inr file_analysis \<Rightarrow>
                             (case fdiv (avg_additions_per_commit file_analysis) (Float 10) of
                                Inl e \<Rightarrow> Inl e
                              | Inr tenth \<Rightarrow>
                                  (let change_score = pymin tenth (Float 30)
                                   in py_round 2
                                        (fadd (fadd commit_score message_score) change_score)))))))"

text \<open>The report is either the one-line message for an empty commit list or the filled
  layout; of the layout the record keeps every value that is interpolated, formatted as
  the source formats it (\<^verbatim>\<open>:.1f\<close> prints one decimal, the listings are cut to 5
  entries, an empty extension is shown as \<^verbatim>\<open>(no extension)\<close>).\<close>

record report_body =
  r_days :: int
  r_total_commits :: nat
  r_productivity :: pyfloat
  r_total_authors :: nat
  r_authors :: "(string \<times> nat \<times> int \<times> int) list"
  r_hour :: "nat \<times> nat"
  r_day :: "string \<times> nat"
  r_avg_message_length :: pyfloat
  r_conventional :: "nat \<times> nat \<times> pyfloat"
  r_commit_types :: "(string \<times> nat) list"
  r_lines :: "int \<times> int \<times> int"
  r_avg_changes :: "pyfloat \<times> pyfloat"
  r_file_types :: "(string \<times> nat) list"
  r_changed_files :: "(string \<times> nat) list"

datatype report = Message string | Body report_body

definition author_line :: "(string \<times> author_stat) list \<Rightarrow> string \<times> nat \<Rightarrow> py_error + (string \<times> nat \<times> int \<times> int)" where
  "author_line stats ac =
     (case map_of stats (fst ac) of
        None \<Rightarrow> Inl KeyError
      | Some s \<Rightarrow> Inr (fst ac, snd ac, s_additions s, s_deletions s))"

fun collect :: "('a \<Rightarrow> py_error + 'b) \<Rightarrow> 'a list \<Rightarrow> py_error + 'b list" where
  "collect f [] = Inr []"
| "collect f (x # xs) =
     (case f x of
        Inl e \<Rightarrow> Inl e
      | Inr y \<Rightarrow> (case collect f xs of Inl e \<Rightarrow> Inl e | Inr ys \<Rightarrow> Inr (y # ys)))"

definition generate_report :: "int \<Rightarrow> commit list \<Rightarrow> py_error + report" where
  "generate_report days commits =
     (if commits = [] then Inr (Message ''No commits found in the specified time range.'')
      else
        (let frequency = analyze_commit_frequency commits;
             authors = analyze_authors commits
         in case analyze_commit_messages commits of
              Inl e \<Rightarrow> Inl e
            | Inr messages \<Rightarrow>
          (case analyze_file_changes commits of
              Inl e \<Rightarrow> Inl e
            | Inr files \<Rightarrow>
          (case get_productivity_score days commits of
              Inl e \<Rightarrow> Inl e
            | Inr productivity \<Rightarrow>
          (case max_by_count (by_hour frequency) of
              Inl e \<Rightarrow> Inl e
            | Inr most_productive_hour \<Rightarrow>
          (case max_by_count (by_day frequency) of
              Inl e \<Rightarrow> Inl e
            | Inr most_productive_day \<Rightarrow>
          (case collect (author_line (author_stats authors)) (take 5 (author_commits authors)) of
              Inl e \<Rightarrow> Inl e
            | Inr author_lines \<Rightarrow>
                Inr (Body
                  \<lparr>r_days = days,
                   r_total_commits = total_commits messages,
                   r_productivity = productivity,
                   r_total_authors = total_authors authors,
                   r_authors = author_lines,
                   r_hour = most_productive_hour,
                   r_day = most_productive_day,
                   r_avg_message_length = fixed 1 (avg_message_length messages),
                   r_conventional = (conventional_commits messages, total_commits messages,
                                     fixed 1 (conventional_percentage messages)),
                   r_commit_types = filter (\<lambda>tc. 0 < snd tc) (commit_types messages),
                   r_lines = (total_additions files, total_deletions files, net_lines files),
                   r_avg_changes = (fixed 1 (avg_additions_per_commit files),
                                    fixed 1 (avg_deletions_per_commit files)),
                   r_file_types =
                     map (\<lambda>ec. (if fst ec = [] then ''(no extension)'' else fst ec, snd ec))
                       (take 5 (file_extensions files)),
                   r_changed_files = take 5 (most_changed_files files)\<rparr>))))))))"

text \<open>\<^verbatim>\<open>export_json\<close> builds the document from the same aggregates, with no test
  for an empty commit list; the record's fields are the keys of the JSON document.\<close>

record metadata_block =
  repo_path :: string
  days_analyzed :: int
  author_filter :: "string option"

record json_document =
  metadata :: metadata_block
  frequency :: frequency_analysis
  messages :: message_analysis
  files :: file_analysis
  authors :: author_analysis
  productivity_score :: pyfloat

definition export_json :: "string \<Rightarrow> int \<Rightarrow> string option \<Rightarrow> commit list \<Rightarrow> py_error + json_document" where
  "export_json repo days author commits =
     (case analyze_commit_messages commits of
        Inl e \<Rightarrow> Inl e
      | Inr m \<Rightarrow>
          (case analyze_file_changes commits of
             Inl e \<Rightarrow> Inl e
           | Inr f \<Rightarrow>
               (case get_productivity_score days commits of
                  Inl e \<Rightarrow> Inl e
                | Inr p \<Rightarrow>
                    Inr \<lparr>metadata = \<lparr>repo_path = repo, days_analyzed = days, author_filter = author\<rparr>,
                         frequency = analyze_commit_frequency commits,
                         messages = m,
                         files = f,
                         authors = analyze_authors commits,
                         productivity_score = p\<rparr>)))"

section \<open>Commit analyzer: the command\<close>

text \<open>What the run finds outside: whether \<^verbatim>\<open>.git\<close> exists under the path; the date
  \<^verbatim>\<open>datetime.now() - timedelta(days=days)\<close> as text, \<open>None\<close> when the subtraction
  raises \<^verbatim>\<open>OverflowError\<close>; the outcome of \<^verbatim>\<open>subprocess.run(..., check=True)\<close>, which
  is the standard output of a command that exited with 0, \<^verbatim>\<open>CalledProcessError\<close>
  for another exit status, or an error of starting the process; the date parser; and
  whether \<^verbatim>\<open>open(path, 'w')\<close> succeeds.\<close>

datatype proc_result = Completed string | CalledProcessError | SpawnError

record environment =
  is_repository :: bool
  since_date :: "int \<Rightarrow> string option"
  git_log :: proc_result
  fromisoformat :: "string \<Rightarrow> datetime option"
  can_open :: "string \<Rightarrow> bool"

datatype console = NotARepository | Analyzing | LookingAt int | GitCommandError
  | Printed report | ExportedTo string | Traceback py_error

text \<open>\<^verbatim>\<open>run_git_command\<close> catches only \<^verbatim>\<open>CalledProcessError\<close>, prints a message and
  returns the empty string.\<close>

definition run_git_command :: "proc_result \<Rightarrow> console list \<times> (py_error + string)" where
  "run_git_command res =
     (case res of
        Completed out \<Rightarrow> ([], Inr out)
      | CalledProcessError \<Rightarrow> ([GitCommandError], Inr [])
      | SpawnError \<Rightarrow> ([], Inl OSError))"

definition fetch_commits :: "environment \<Rightarrow> int \<Rightarrow> console list \<times> (py_error + commit list)" where
  "fetch_commits env days =
     (case since_date env days of
        None \<Rightarrow> ([], Inl OverflowError)
      | Some since \<Rightarrow>
          (case run_git_command (git_log env) of
             (out, Inl e) \<Rightarrow> (out, Inl e)
           | (out, Inr text) \<Rightarrow> (out, parse_log (fromisoformat env) text)))"

text \<open>\<^verbatim>\<open>main\<close>. An exception that nothing catches ends the process with a traceback
  and exit status 1; \<^verbatim>\<open>sys.exit(1)\<close> is called only for a path that is not a
  repository; falling off the end of \<^verbatim>\<open>main\<close> is exit status 0. The export is made
  when \<^verbatim>\<open>args.export\<close> is true, that is, given and not the empty string; it builds
  the document, then opens the file, writes and prints.\<close>

record arguments =
  arg_repo_path :: string
  arg_days :: int
  arg_author :: "string option"
  arg_export :: "string option"

record outcome =
  console_output :: "console list"
  exit_code :: int
  written :: "(string \<times> json_document) option"

definition uncaught :: "console list \<Rightarrow> py_error \<Rightarrow> outcome" where
  "uncaught out e = \<lparr>console_output = out @ [Traceback e], exit_code = 1, written = None\<rparr>"

definition export_requested :: "arguments \<Rightarrow> string option" where
  "export_requested args =
     (case arg_export args of None \<Rightarrow> None | Some path \<Rightarrow> if path = [] then None else Some path)"

definition main :: "environment \<Rightarrow> arguments \<Rightarrow> outcome" where
  "main env args =
     (if \<not> is_repository env
      then \<lparr>console_output = [NotARepository], exit_code = 1, written = None\<rparr>
      else
        (case fetch_commits env (arg_days args) of
           (git_out, Inl e) \<Rightarrow> uncaught ([Analyzing, LookingAt (arg_days args)] @ git_out) e
         | (git_out, Inr commits) \<Rightarrow>
             (let out = [Analyzing, LookingAt (arg_days args)] @ git_out
              in case generate_report (arg_days args) commits of
                   Inl e \<Rightarrow> uncaught out e
                 | Inr report \<Rightarrow>
                     (case export_requested args of
                        None \<Rightarrow> \<lparr>console_output = out @ [Printed report], exit_code = 0,
                                  written = None\<rparr>
                      | Some path \<Rightarrow>
                          (case export_json (arg_repo_path args) (arg_days args)
                                  (arg_author args) commits of
                             Inl e \<Rightarrow> uncaught (out @ [Printed report]) e
                           | Inr doc \<Rightarrow>
                               if can_open env path
                               then \<lparr>console_output = out @ [Printed report, ExportedTo path],
                                     exit_code = 0, written = Some (path, doc)\<rparr>
                               else uncaught (out @ [Printed report]) OSError)))))"

section \<open>Reference values used in the statements\<close>

text \<open>The document that \<^verbatim>\<open>export_json\<close> writes for a commit list without
  commits.\<close>

definition empty_document :: "string \<Rightarrow> int \<Rightarrow> string option \<Rightarrow> json_document" where
  "empty_document repo days author =
     \<lparr>metadata = \<lparr>repo_path = repo, days_analyzed = days, author_filter = author\<rparr>,
      frequency = \<lparr>by_hour = [], by_day = [], by_date = []\<rparr>,
      messages = \<lparr>total_commits = 0, avg_message_length = 0, conventional_commits = 0,
          conventional_percentage = 0,
          commit_types = [(''feat'', 0), (''fix'', 0), (''docs'', 0), (''style'', 0),
                          (''refactor'', 0), (''test'', 0), (''chore'', 0)]\<rparr>,
      files = \<lparr>total_additions = 0, total_deletions = 0, net_lines = 0,
          avg_additions_per_commit = 0, avg_deletions_per_commit = 0,
          file_extensions = [], most_changed_files = []\<rparr>,
      authors = \<lparr>total_authors = 0, author_commits = [], author_stats = []\<rparr>,
      productivity_score = 0\<rparr>"


text \<open>A stand-in for the date parser in examples: it accepts exactly the strings of 24
  characters. The theorems hold for every parser.\<close>

definition sample_fromiso :: "string \<Rightarrow> datetime option" where
  "sample_fromiso s =
     (if length s = 24 then Some \<lparr>hour = 10, weekday = ''Monday'', ymd = take 10 s\<rparr> else None)"

text \<open>An environment for examples: the path is a repository, the window starts on a
  fixed date, the git command exits with an error, and every file can be opened; and the
  arguments of a run without an export.\<close>

definition sample_env :: environment where
  "sample_env =
     \<lparr>is_repository = True, since_date = (\<lambda>days. Some ''2024-01-01''),
      git_log = CalledProcessError, fromisoformat = sample_fromiso, can_open = (\<lambda>path. True)\<rparr>"

definition sample_args :: arguments where
  "sample_args = \<lparr>arg_repo_path = ''.'', arg_days = 30, arg_author = None, arg_export = None\<rparr>"

text \<open>The value of the float \<^verbatim>\<open>k / 255\<close> that \<^verbatim>\<open>get_color_name\<close> computes from a
  channel \<open>k\<close>.\<close>

definition channel :: "int \<Rightarrow> rat" where
  "channel k = nearest (of_int k / 255)"

text \<open>A float that is finite and lies between two rationals.\<close>

definition float_in :: "pyfloat \<Rightarrow> rat \<Rightarrow> rat \<Rightarrow> bool" where
  "float_in a lo hi = (case a of Float q \<Rightarrow> lo \<le> q \<and> q \<le> hi | _ \<Rightarrow> False)"

definition is_finite :: "pyfloat \<Rightarrow> bool" where
  "is_finite a = (case a of Float q \<Rightarrow> True | _ \<Rightarrow> False)"

text \<open>The quantities of the specification's formula for the productivity score, written
  from its words, every operation being the one on floats: the commits per day, the share
  of conventional messages as a percentage, the average number of added lines of a
  commit, and the sum of the three capped terms rounded to two decimals. The average
  length of a message and the average number of deleted lines are not part of the
  formula, but the analyses compute them on the way; \<open>averages_finite\<close> says that none of
  the four averages is beyond the floats.\<close>

definition conventional_count :: "commit list \<Rightarrow> nat" where
  "conventional_count cs = length (filter (\<lambda>c. match_group1 (c_message c) \<noteq> None) cs)"

definition commits_per_day :: "int \<Rightarrow> commit list \<Rightarrow> pyfloat" where
  "commits_per_day days cs = fl (of_nat (length cs) / of_int days)"

definition conventional_pct :: "commit list \<Rightarrow> pyfloat" where
  "conventional_pct cs =
     fmul (fl (of_nat (conventional_count cs) / of_nat (length cs))) (Float 100)"

definition avg_additions :: "commit list \<Rightarrow> pyfloat" where
  "avg_additions cs = fl (of_int (sum_list (map c_additions cs)) / of_nat (length cs))"

definition avg_length :: "commit list \<Rightarrow> pyfloat" where
  "avg_length cs =
     fl (of_nat (sum_list (map (\<lambda>c. length (c_message c)) cs)) / of_nat (length cs))"

definition avg_deletions :: "commit list \<Rightarrow> pyfloat" where
  "avg_deletions cs = fl (of_int (sum_list (map c_deletions cs)) / of_nat (length cs))"

definition averages_finite :: "int \<Rightarrow> commit list \<Rightarrow> bool" where
  "averages_finite days cs =
     (is_finite (commits_per_day days cs) \<and> is_finite (avg_length cs) \<and>
      is_finite (avg_additions cs) \<and> is_finite (avg_deletions cs))"

definition spec_score :: "int \<Rightarrow> commit list \<Rightarrow> pyfloat" where
  "spec_score days cs =
     (case fadd (fadd (pymin (fmul (commits_per_day days cs) (Float 10)) (Float 40))
                      (fmul (conventional_pct cs) (fl (3 / 10))))
                (pymin (quotient (avg_additions cs) (Float 10)) (Float 30)) of
        Float x \<Rightarrow> fl (decimal 2 x)
      | a \<Rightarrow> a)"


text \<open>Commits for examples; the list has the three messages of the specification's
  example.\<close>

definition sample_commit :: "string \<Rightarrow> int \<Rightarrow> int \<Rightarrow> commit" where
  "sample_commit msg add del =
     \<lparr>c_hash = ''0a1b2c'', c_author = ''Ann'',
      c_date = \<lparr>hour = 10, weekday = ''Monday'', ymd = ''2024-01-15''\<rparr>,
      c_message = msg, c_files = [], c_additions = add, c_deletions = del\<rparr>"

definition sample_commits :: "commit list" where
  "sample_commits =
     [sample_commit ''feat: a'' 10 2, sample_commit ''random text'' 0 5,
      sample_commit ''fix(core): b'' 5 0]"


text \<open>Log text for examples: a stat line joins its three fields with tabs, a log joins
  its lines with newlines; the header is a commit line as \<^verbatim>\<open>git log\<close> prints it
  for the format \<^verbatim>\<open>%H|%an|%ai|%s\<close>.\<close>

definition stat_line :: "string \<Rightarrow> string \<Rightarrow> string \<Rightarrow> string" where
  "stat_line a d f = a @ [CHR 0x09] @ d @ [CHR 0x09] @ f"

definition sample_header :: string where
  "sample_header = ''0a1b2c|Ann|2024-01-15 10:30:45 +0100|feat: a''"

definition log_lines :: "string list \<Rightarrow> string" where
  "log_lines ls = (case ls of [] \<Rightarrow> [] | l # rest \<Rightarrow> foldl (\<lambda>acc x. acc @ [CHR 0x0A] @ x) l rest)"


text \<open>A commit line as the format \<^verbatim>\<open>%H|%an|%ai|%s\<close> produces it from a hash, an
  author, a date and a subject; and one whose subject contains the separator.\<close>

definition commit_text :: "string \<Rightarrow> string \<Rightarrow> string \<Rightarrow> string \<Rightarrow> string" where
  "commit_text h a d subject = h @ ''|'' @ a @ ''|'' @ d @ ''|'' @ subject"

definition bar_subject_line :: string where
  "bar_subject_line = commit_text ''9f8e7d'' ''Bob'' ''2024-01-14 09:00:00 +0100'' ''fix: a|b''"


text \<open>A log whose commit touches a file without an extension, the commit it parses to,
  and the file-type lines of a report.\<close>

definition makefile_log :: string where
  "makefile_log =
     log_lines [sample_header, stat_line ''3'' ''1'' ''Makefile'', stat_line ''10'' ''2'' ''src/a.py'']"

definition makefile_commit :: commit where
  "makefile_commit =
     \<lparr>c_hash = ''0a1b2c'', c_author = ''Ann'',
      c_date = \<lparr>hour = 10, weekday = ''Monday'', ymd = ''2024-01-15''\<rparr>,
      c_message = ''feat: a'',
      c_files = [\<lparr>f_name = ''Makefile'', f_additions = 3, f_deletions = 1\<rparr>,
                 \<lparr>f_name = ''src/a.py'', f_additions = 10, f_deletions = 2\<rparr>],
      c_additions = 13, c_deletions = 3\<rparr>"

definition shown_file_types :: "py_error + report \<Rightarrow> (string \<times> nat) list" where
  "shown_file_types r = (case r of Inr (Body b) \<Rightarrow> r_file_types b | _ \<Rightarrow> [])"

text \<open>The line of a report on conventional commits: the count, the total and the
  percentage as printed.\<close>

definition shown_conventional :: "py_error + report \<Rightarrow> (nat \<times> nat \<times> pyfloat) option" where
  "shown_conventional r = (case r of Inr (Body b) \<Rightarrow> Some (r_conventional b) | _ \<Rightarrow> None)"


text \<open>The file names changed over a commit list, the extensions among them that are
  counted, and what it means for a selection of counted keys to be the top \<open>n\<close> by
  occurrence: at most \<open>n\<close> keys with their numbers of occurrences, in non-increasing
  order, no key left out occurring more often than a selected one.\<close>

definition changed_names :: "commit list \<Rightarrow> string list" where
  "changed_names cs = concat (map (\<lambda>c. map f_name (c_files c)) cs)"

definition counted_extensions :: "commit list \<Rightarrow> string list" where
  "counted_extensions cs = filter (\<lambda>e. e \<noteq> []) (map path_suffix (changed_names cs))"

definition top_by_count :: "nat \<Rightarrow> 'a list \<Rightarrow> ('a \<times> nat) list \<Rightarrow> bool" where
  "top_by_count n xs sel =
     (length sel \<le> n \<and>
      (\<forall>kc\<in>set sel. fst kc \<in> set xs \<and> snd kc = count_list xs (fst kc)) \<and>
      sorted_wrt (\<lambda>a b. snd b \<le> snd a) sel \<and>
      (\<forall>y\<in>set xs. y \<notin> fst ` set sel \<longrightarrow> (\<forall>kc\<in>set sel. count_list xs y \<le> snd kc)))"

section \<open>The meaning of the message pattern\<close>

text \<open>The set of strings a regular expression matches, and the specification's wording
  of a conventional message: the message starts with the tag, then comes a colon, or a
  scope of at least one character other than a newline between parentheses and then a
  colon.\<close>

definition lang_cat :: "string set \<Rightarrow> string set \<Rightarrow> string set" where
  "lang_cat A B = {u @ v | u v. u \<in> A \<and> v \<in> B}"

inductive_set lang_rep :: "string set \<Rightarrow> string set" for A :: "string set" where
  rep_nil: "[] \<in> lang_rep A"
| rep_more: "u \<in> A \<Longrightarrow> v \<in> lang_rep A \<Longrightarrow> u @ v \<in> lang_rep A"

fun lang :: "regex \<Rightarrow> string set" where
  "lang Fail = {}"
| "lang Empty = {[]}"
| "lang (Lit c) = {[c]}"
| "lang AnyChar = {[c] | c. c \<noteq> CHR 0x0A}"
| "lang (Alt r s) = lang r \<union> lang s"
| "lang (Cat r s) = lang_cat (lang r) (lang s)"
| "lang (Rep r) = lang_rep (lang r)"

definition conventional_with :: "string \<Rightarrow> string \<Rightarrow> bool" where
  "conventional_with t msg =
     ((\<exists>rest. msg = t @ '':'' @ rest) \<or>
      (\<exists>scope rest. scope \<noteq> [] \<and> CHR 0x0A \<notin> set scope \<and> msg = t @ ''('' @ scope @ ''):'' @ rest))"

definition is_conventional :: "string \<Rightarrow> bool" where
  "is_conventional msg = (\<exists>t \<in> set commit_type_tags. conventional_with t msg)"

section \<open>Rounding to integers\<close>

lemma round_half_even_cases:
  "round_half_even y = \<lfloor>y\<rfloor> \<or> round_half_even y = \<lfloor>y\<rfloor> + 1"
  by (simp add: round_half_even_def Let_def)

lemma round_half_even_of_int [simp]: "round_half_even (of_int k) = k"
  by (simp add: round_half_even_def Let_def)

lemma round_half_even_mono:
  assumes "x \<le> y"
  shows "round_half_even x \<le> round_half_even y"
proof (cases "\<lfloor>x\<rfloor> = \<lfloor>y\<rfloor>")
  case True
  then have "x - of_int \<lfloor>x\<rfloor> \<le> y - of_int \<lfloor>y\<rfloor>" using assms by simp
  with True show ?thesis
    by (simp add: round_half_even_def Let_def)
next
  case False
  have "\<lfloor>x\<rfloor> \<le> \<lfloor>y\<rfloor>" using assms by (rule floor_mono)
  with False have lt: "\<lfloor>x\<rfloor> + 1 \<le> \<lfloor>y\<rfloor>" by simp
  have "round_half_even x \<le> \<lfloor>x\<rfloor> + 1" using round_half_even_cases[of x] by auto
  moreover have "\<lfloor>y\<rfloor> \<le> round_half_even y" using round_half_even_cases[of y] by auto
  ultimately show ?thesis using lt by simp
qed

lemma round_half_even_error: "\<bar>of_int (round_half_even y) - y\<bar> \<le> 1 / 2"
proof -
  have f: "of_int \<lfloor>y\<rfloor> \<le> y" "y < of_int \<lfloor>y\<rfloor> + 1" by linarith+
  show ?thesis
    using f by (auto simp add: round_half_even_def Let_def abs_le_iff)
qed

lemma round_half_even_minus: "round_half_even (- y) = - round_half_even y"
proof (cases "y = of_int \<lfloor>y\<rfloor>")
  case True
  then obtain k where "y = of_int k" by blast
  then have "round_half_even (- y) = round_half_even (of_int (- k))" by simp
  also have "\<dots> = - k" by (rule round_half_even_of_int)
  finally show ?thesis using \<open>y = of_int k\<close> by simp
next
  case False
  have fl: "\<lfloor>- y\<rfloor> = - \<lfloor>y\<rfloor> - 1"
    using False by (simp add: floor_minus ceiling_altdef)
  have d: "- y - of_int \<lfloor>- y\<rfloor> = 1 - (y - of_int \<lfloor>y\<rfloor>)" by (simp add: fl)
  show ?thesis
    unfolding round_half_even_def Let_def d
    by (auto simp add: fl)
qed

lemma round_half_even_zero [simp]: "round_half_even 0 = 0"
  using round_half_even_of_int[of 0] by simp

lemma round_half_even_nonneg: "0 \<le> y \<Longrightarrow> 0 \<le> round_half_even y"
  using round_half_even_mono[of 0 y] by simp

section \<open>The binary exponent\<close>

lemma pow2_ge_of_int: "(m::int) \<le> 2 ^ k \<Longrightarrow> (of_int m :: rat) \<le> 2 ^ k"
proof -
  assume "m \<le> 2 ^ k"
  then have "(of_int m :: rat) \<le> of_int (2 ^ k)" by (simp only: of_int_le_iff)
  then show ?thesis by simp
qed

lemma ilog2_bounds:
  assumes "0 < x"
  shows "2 powi (ilog2 x) \<le> x \<and> x < 2 powi (ilog2 x + 1)"
proof (cases "1 \<le> x")
  case True
  define n where "n = \<lfloor>x\<rfloor>"
  have n1: "1 \<le> n" using True by (simp add: n_def le_floor_iff)
  then have n0: "0 < n" by simp
  have b1: "1 \<le> bitlen n" using n0 by (simp add: bitlen_alt_def)
  from bitlen_bounds[OF n0] have lo: "2 ^ nat (bitlen n - 1) \<le> n" and hi: "n < 2 ^ nat (bitlen n)"
    by simp_all
  have il: "ilog2 x = bitlen n - 1" using True by (simp add: ilog2_def n_def)
  have p1: "(2::rat) powi (bitlen n - 1) = 2 ^ nat (bitlen n - 1)"
    using b1 by (simp add: power_int_def)
  have p2: "(2::rat) powi (bitlen n - 1 + 1) = 2 ^ nat (bitlen n)"
    using b1 by (simp add: power_int_def)
  have "(2::rat) ^ nat (bitlen n - 1) \<le> of_int n" using lo by simp
  moreover have "of_int n \<le> x" by (simp add: n_def)
  ultimately have l: "(2::rat) ^ nat (bitlen n - 1) \<le> x" by (rule order_trans)
  have "n + 1 \<le> 2 ^ nat (bitlen n)" using hi by simp
  then have "(of_int (n + 1) :: rat) \<le> 2 ^ nat (bitlen n)" by (rule pow2_ge_of_int)
  moreover have "x < of_int (n + 1)" unfolding n_def by linarith
  ultimately have h: "x < (2::rat) ^ nat (bitlen n)" by (rule less_le_trans[rotated])
  from l h show ?thesis by (simp only: il p1 p2 simp_thms)
next
  case False
  then have x1: "x < 1" by simp
  define y where "y = 1 / x"
  have y1: "1 < y" using assms x1 by (simp add: y_def)
  define n where "n = \<lceil>y\<rceil> - 1"
  have ny: "of_int n < y" "y \<le> of_int n + 1"
    unfolding n_def by (simp_all add: le_of_int_ceiling) linarith
  have n0: "0 < n" using y1 unfolding n_def by (simp add: less_ceiling_iff)
  have b1: "1 \<le> bitlen n" using n0 by (simp add: bitlen_alt_def)
  from bitlen_bounds[OF n0] have lo: "2 ^ nat (bitlen n - 1) \<le> n" and hi: "n < 2 ^ nat (bitlen n)"
    by simp_all
  have il: "ilog2 x = - bitlen n" using False by (simp add: ilog2_def n_def y_def)
  have "(2::rat) ^ nat (bitlen n - 1) \<le> of_int n" using lo by simp
  then have l: "(2::rat) ^ nat (bitlen n - 1) < y" using ny(1) by (rule le_less_trans)
  have "n + 1 \<le> 2 ^ nat (bitlen n)" using hi by simp
  then have "(of_int (n + 1) :: rat) \<le> 2 ^ nat (bitlen n)" by (rule pow2_ge_of_int)
  moreover have "y \<le> of_int (n + 1)" using ny(2) by simp
  ultimately have h: "y \<le> (2::rat) ^ nat (bitlen n)" by (rule order_trans[rotated])
  have p1: "(2::rat) powi (- bitlen n) = 1 / 2 ^ nat (bitlen n)"
    using b1 by (simp add: power_int_def field_simps)
  have p2: "(2::rat) powi (- bitlen n + 1) = 1 / 2 ^ nat (bitlen n - 1)"
    using b1 by (simp add: power_int_def field_simps nat_diff_distrib)
  have xy: "x = 1 / y" using assms by (simp add: y_def)
  have a: "1 / 2 ^ nat (bitlen n) \<le> x"
    unfolding xy using h y1 by (simp add: frac_le)
  have b: "x < 1 / 2 ^ nat (bitlen n - 1)"
    unfolding xy using l by (simp add: frac_less2)
  from a b show ?thesis by (simp only: il p1 p2 simp_thms)
qed

lemma ilog2_less:
  assumes "0 < x" "x < 2 powi k"
  shows "ilog2 x < k"
proof (rule ccontr)
  assume "\<not> ilog2 x < k"
  then have "k \<le> ilog2 x" by simp
  then have "(2::rat) powi k \<le> 2 powi (ilog2 x)" by (rule power_int_increasing) simp
  also have "\<dots> \<le> x" using ilog2_bounds[OF assms(1)] by simp
  finally show False using assms(2) by simp
qed

lemma ilog2_ge:
  assumes "0 < x" "2 powi k \<le> x"
  shows "k \<le> ilog2 x"
proof (rule ccontr)
  assume "\<not> k \<le> ilog2 x"
  then have "ilog2 x + 1 \<le> k" by simp
  then have "(2::rat) powi (ilog2 x + 1) \<le> 2 powi k" by (rule power_int_increasing) simp
  with assms(2) have "2 powi (ilog2 x + 1) \<le> x" by simp
  then show False using ilog2_bounds[OF assms(1)] by simp
qed

lemma ilog2_mono:
  assumes "0 < x" "x \<le> y"
  shows "ilog2 x \<le> ilog2 y"
proof -
  have y: "0 < y" using assms by simp
  have "2 powi (ilog2 x) \<le> x" using ilog2_bounds[OF assms(1)] by simp
  with assms(2) have "2 powi (ilog2 x) \<le> y" by simp
  with y show ?thesis by (rule ilog2_ge)
qed

lemma ilog2_zero [simp]: "ilog2 0 = 0"
  by (simp add: ilog2_def bitlen_alt_def)

lemma exponent_of_minus [simp]: "exponent_of (- x) = exponent_of x"
  by (simp add: exponent_of_def)

lemma exponent_of_mono:
  assumes "0 < x" "x \<le> y"
  shows "exponent_of x \<le> exponent_of y"
  using ilog2_mono[OF assms] assms by (simp add: exponent_of_def)

lemma nearest_minus: "nearest (- x) = - nearest x"
  by (simp add: nearest_def round_half_even_minus)

lemma nearest_zero [simp]: "nearest 0 = 0"
  by (simp add: nearest_def)

lemma nearest_nonneg:
  assumes "0 \<le> x"
  shows "0 \<le> nearest x"
proof (cases "x = 0")
  case True then show ?thesis by simp
next
  case False
  have "0 \<le> x / 2 powi exponent_of x" using assms by simp
  then have "0 \<le> round_half_even (x / 2 powi exponent_of x)" by (rule round_half_even_nonneg)
  then have "(0::rat) \<le> of_int (round_half_even (x / 2 powi exponent_of x)) * 2 powi exponent_of x"
    by simp
  with False show ?thesis by (simp add: nearest_def)
qed

text \<open>A positive number scaled by its exponent lies below \<open>2 ^ 53\<close>, and at or above
  \<open>2 ^ 52\<close> outside the subnormal range.\<close>

lemma scaled_upper:
  assumes "0 < x"
  shows "x / 2 powi exponent_of x < 2 ^ 53"
proof -
  have "ilog2 x + 1 \<le> exponent_of x + 53" using assms by (simp add: exponent_of_def)
  then have "(2::rat) powi (ilog2 x + 1) \<le> 2 powi (exponent_of x + 53)"
    by (rule power_int_increasing) simp
  moreover have "x < 2 powi (ilog2 x + 1)" using ilog2_bounds[OF assms] by simp
  ultimately have "x < 2 powi (exponent_of x + 53)" by simp
  also have "\<dots> = 2 powi exponent_of x * 2 ^ 53" by (simp add: power_int_add)
  finally show ?thesis by (simp add: pos_divide_less_eq mult.commute)
qed

lemma scaled_lower:
  assumes "0 < x" "- 1074 < exponent_of x"
  shows "2 ^ 52 \<le> x / 2 powi exponent_of x"
proof -
  have e: "exponent_of x = ilog2 x - 52" using assms by (simp add: exponent_of_def)
  have "(2::rat) powi (exponent_of x + 52) = 2 powi (ilog2 x)" by (simp add: e)
  also have "\<dots> \<le> x" using ilog2_bounds[OF assms(1)] by simp
  finally have "2 powi exponent_of x * 2 ^ 52 \<le> x" by (simp add: power_int_add)
  then show ?thesis by (simp add: pos_le_divide_eq mult.commute)
qed

lemma nearest_pos_eq:
  assumes "0 < x"
  shows "nearest x = of_int (round_half_even (x / 2 powi exponent_of x)) * 2 powi exponent_of x"
  using assms by (simp add: nearest_def)

lemma nearest_mono_pos:
  assumes "0 < x" "x \<le> y"
  shows "nearest x \<le> nearest y"
proof -
  have y: "0 < y" using assms by simp
  let ?ex = "exponent_of x" and ?ey = "exponent_of y"
  have le: "?ex \<le> ?ey" using assms by (rule exponent_of_mono)
  show ?thesis
  proof (cases "?ex = ?ey")
    case True
    have "x / 2 powi ?ey \<le> y / 2 powi ?ey" using assms(2) by (simp add: divide_right_mono)
    then have "round_half_even (x / 2 powi ?ey) \<le> round_half_even (y / 2 powi ?ey)"
      by (rule round_half_even_mono)
    then have "(of_int (round_half_even (x / 2 powi ?ey)) :: rat) \<le> of_int (round_half_even (y / 2 powi ?ey))"
      by (simp only: of_int_le_iff)
    then have "of_int (round_half_even (x / 2 powi ?ey)) * (2::rat) powi ?ey
        \<le> of_int (round_half_even (y / 2 powi ?ey)) * 2 powi ?ey"
      by (rule mult_right_mono) simp
    then show ?thesis by (simp only: nearest_pos_eq[OF assms(1)] nearest_pos_eq[OF y] True)
  next
    case False
    with le have lt: "?ex + 1 \<le> ?ey" by simp
    then have sub: "- 1074 < ?ey" by (simp add: exponent_of_def)
    have "x / 2 powi ?ex \<le> of_int (2 ^ 53)" using scaled_upper[OF assms(1)] by simp
    then have "round_half_even (x / 2 powi ?ex) \<le> round_half_even (of_int (2 ^ 53))"
      by (rule round_half_even_mono)
    then have "round_half_even (x / 2 powi ?ex) \<le> 2 ^ 53" by (simp only: round_half_even_of_int)
    then have "(of_int (round_half_even (x / 2 powi ?ex)) :: rat) \<le> 2 ^ 53" by (rule pow2_ge_of_int)
    then have "of_int (round_half_even (x / 2 powi ?ex)) * (2::rat) powi ?ex \<le> 2 ^ 53 * 2 powi ?ex"
      by (rule mult_right_mono) simp
    then have a: "nearest x \<le> 2 powi (?ex + 53)"
      by (simp add: nearest_pos_eq[OF assms(1)] power_int_add mult.commute)
    have "of_int (2 ^ 52) \<le> y / 2 powi ?ey" using scaled_lower[OF y sub] by simp
    then have "round_half_even (of_int (2 ^ 52)) \<le> round_half_even (y / 2 powi ?ey)"
      by (rule round_half_even_mono)
    then have "2 ^ 52 \<le> round_half_even (y / 2 powi ?ey)" by (simp only: round_half_even_of_int)
    then have "(of_int (2 ^ 52) :: rat) \<le> of_int (round_half_even (y / 2 powi ?ey))"
      by (simp only: of_int_le_iff)
    then have "(2::rat) ^ 52 \<le> of_int (round_half_even (y / 2 powi ?ey))" by simp
    then have "2 ^ 52 * (2::rat) powi ?ey \<le> of_int (round_half_even (y / 2 powi ?ey)) * 2 powi ?ey"
      by (rule mult_right_mono) simp
    then have b: "2 powi (?ey + 52) \<le> nearest y"
      by (simp add: nearest_pos_eq[OF y] power_int_add mult.commute)
    have "?ex + 53 \<le> ?ey + 52" using lt by simp
    then have "(2::rat) powi (?ex + 53) \<le> 2 powi (?ey + 52)" by (rule power_int_increasing) simp
    with a b show ?thesis by simp
  qed
qed

lemma nearest_mono:
  assumes "x \<le> y"
  shows "nearest x \<le> nearest y"
proof -
  consider "0 < x" | "x \<le> 0" "0 \<le> y" | "y < 0" by linarith
  then show ?thesis
  proof cases
    case 1 then show ?thesis using assms by (rule nearest_mono_pos)
  next
    case 2
    have "0 \<le> nearest (- x)" using 2(1) by (simp add: nearest_nonneg)
    then have "nearest x \<le> 0" by (simp add: nearest_minus)
    moreover have "0 \<le> nearest y" using 2(2) by (rule nearest_nonneg)
    ultimately show ?thesis by simp
  next
    case 3
    then have "0 < - y" "- y \<le> - x" using assms by simp_all
    then have "nearest (- y) \<le> nearest (- x)" by (rule nearest_mono_pos)
    then show ?thesis by (simp add: nearest_minus)
  qed
qed

lemma nearest_error: "\<bar>nearest x - x\<bar> \<le> 2 powi exponent_of x / 2"
proof (cases "x = 0")
  case True then show ?thesis by simp
next
  case False
  let ?e = "exponent_of x"
  have p: "(0::rat) < 2 powi ?e" by simp
  have "nearest x - x = (of_int (round_half_even (x / 2 powi ?e)) - x / 2 powi ?e) * 2 powi ?e"
    using False by (simp add: nearest_def algebra_simps)
  then have "\<bar>nearest x - x\<bar> = \<bar>of_int (round_half_even (x / 2 powi ?e)) - x / 2 powi ?e\<bar> * 2 powi ?e"
    by (simp add: abs_mult)
  also have "\<dots> \<le> 1 / 2 * 2 powi ?e"
    using round_half_even_error[of "x / 2 powi ?e"] by (rule mult_right_mono) simp
  finally show ?thesis by simp
qed

lemma nearest_error_unit:
  assumes "\<bar>x\<bar> \<le> 1"
  shows "\<bar>nearest x - x\<bar> \<le> 1 / 2 ^ 53"
proof (cases "x = 0")
  case True then show ?thesis by simp
next
  case False
  then have pos: "0 < \<bar>x\<bar>" by simp
  have "\<bar>x\<bar> < 2 powi 1" using assms by simp
  with pos have "ilog2 \<bar>x\<bar> < 1" by (rule ilog2_less)
  then have "exponent_of x \<le> - 52" by (simp add: exponent_of_def)
  then have "(2::rat) powi exponent_of x \<le> 2 powi (- 52)" by (rule power_int_increasing) simp
  then have "(2::rat) powi exponent_of x / 2 \<le> 2 powi (- 52) / 2" by simp
  also have "\<dots> = 1 / 2 ^ 53" by (simp add: power_int_minus_divide)
  finally show ?thesis using nearest_error[of x] by simp
qed

section \<open>Float operations\<close>

lemma fl_finite:
  assumes "\<bar>nearest x\<bar> < 2 ^ 1024"
  shows "fl x = Float (nearest x)"
proof (cases "nearest x = 0")
  case True then show ?thesis by (simp add: fl_def)
next
  case False
  then have "0 < \<bar>nearest x\<bar>" by simp
  moreover have "\<bar>nearest x\<bar> < 2 powi 1024" using assms by simp
  ultimately have "ilog2 \<bar>nearest x\<bar> < 1024" by (rule ilog2_less)
  then show ?thesis by (simp add: fl_def)
qed

lemma fl_between:
  assumes "a \<le> x" "x \<le> b" and "nearest a = a" "nearest b = b"
      and "- (2 ^ 1024) < a" "b < 2 ^ 1024"
  shows "fl x = Float (nearest x) \<and> a \<le> nearest x \<and> nearest x \<le> b"
proof -
  have lo: "a \<le> nearest x" using nearest_mono[OF assms(1)] by (simp add: assms(3))
  have hi: "nearest x \<le> b" using nearest_mono[OF assms(2)] by (simp add: assms(4))
  from lo hi assms(5,6) have "\<bar>nearest x\<bar> < 2 ^ 1024" by (simp add: abs_less_iff)
  then have "fl x = Float (nearest x)" by (rule fl_finite)
  with lo hi show ?thesis by simp
qed

lemma fl_nonneg:
  assumes "0 \<le> x"
  shows "fl x = PosInf \<or> (fl x = Float (nearest x) \<and> 0 \<le> nearest x)"
proof -
  have r: "0 \<le> nearest x" using assms by (rule nearest_nonneg)
  show ?thesis
  proof (cases "1024 \<le> ilog2 \<bar>nearest x\<bar>")
    case True
    then have "nearest x \<noteq> 0" by auto
    with r have "0 < nearest x" by simp
    with True show ?thesis by (simp add: fl_def)
  next
    case False
    with r show ?thesis by (simp add: fl_def)
  qed
qed

lemma pymin_Float [simp]: "pymin (Float x) (Float y) = Float (min x y)"
  by (simp add: pymin_def min_def)

lemma pymax_Float [simp]: "pymax (Float x) (Float y) = Float (max x y)"
  by (simp add: pymax_def max_def)

lemma pymin_PosInf [simp]: "pymin PosInf (Float y) = Float y"
  by (simp add: pymin_def)

lemma nearest_consts:
  "nearest 1 = 1" "nearest 2 = 2" "nearest 3 = 3" "nearest 4 = 4" "nearest 5 = 5"
  "nearest 10 = 10" "nearest 30 = 30" "nearest 40 = 40" "nearest 70 = 70"
  "nearest 100 = 100" "nearest 360 = 360" "nearest 256 = 256"
  by code_simp+

lemma nearest_literals:
  "nearest (3 / 10) = 5404319552844595 / 18014398509481984"
  "nearest (1 / 10) = 3602879701896397 / 36028797018963968"
  "nearest (9 / 10) = 8106479329266893 / 9007199254740992"
  by code_simp+

lemma float_inE:
  assumes "float_in a lo hi"
  obtains q where "a = Float q" "lo \<le> q" "q \<le> hi"
  using assms by (cases a) (simp_all add: float_in_def)

lemma float_inI: "lo \<le> q \<Longrightarrow> q \<le> hi \<Longrightarrow> float_in (Float q) lo hi"
  by (simp add: float_in_def)

lemma fl_in:
  assumes "a \<le> x" "x \<le> b" and "nearest a = a" "nearest b = b"
      and "- (2 ^ 1024) < a" "b < 2 ^ 1024"
  shows "float_in (fl x) a b"
  using fl_between[OF assms] by (simp add: float_in_def)

lemma fadd_in:
  assumes "float_in a la ha" "float_in b lb hb"
      and "nearest (la + lb) = la + lb" "nearest (ha + hb) = ha + hb"
      and "- (2 ^ 1024) < la + lb" "ha + hb < 2 ^ 1024"
  shows "float_in (fadd a b) (la + lb) (ha + hb)"
proof -
  from assms(1) obtain x where x: "a = Float x" "la \<le> x" "x \<le> ha" by (rule float_inE)
  from assms(2) obtain y where y: "b = Float y" "lb \<le> y" "y \<le> hb" by (rule float_inE)
  have "la + lb \<le> x + y" "x + y \<le> ha + hb" using x y by simp_all
  then have "float_in (fl (x + y)) (la + lb) (ha + hb)" using assms(3-6) by (rule fl_in)
  then show ?thesis by (simp add: x y)
qed

lemma fmul_in:
  assumes "float_in a 0 ha" "float_in b 0 hb"
      and "ha * hb \<le> c" "nearest c = c" "c < 2 ^ 1024"
  shows "float_in (fmul a b) 0 c"
proof -
  from assms(1) obtain x where x: "a = Float x" "0 \<le> x" "x \<le> ha" by (rule float_inE)
  from assms(2) obtain y where y: "b = Float y" "0 \<le> y" "y \<le> hb" by (rule float_inE)
  have "x * y \<le> ha * hb" using x y by (intro mult_mono) simp_all
  with assms(3) have hi: "x * y \<le> c" by simp
  have lo: "0 \<le> x * y" using x y by simp
  have "float_in (fl (x * y)) 0 c" by (rule fl_in[OF lo hi _ assms(4) _ assms(5)]) simp_all
  then show ?thesis by (simp add: x y)
qed

lemma pymin_cap:
  assumes "a = PosInf \<or> (\<exists>q. a = Float q \<and> 0 \<le> q)" and "0 \<le> c"
  shows "float_in (pymin a (Float c)) 0 c"
  using assms by (auto simp add: float_in_def)

lemma fl_capped:
  assumes "0 \<le> x"
  shows "fl x = PosInf \<or> (\<exists>q. fl x = Float q \<and> 0 \<le> q)"
  using fl_nonneg[OF assms] by blast

lemma int_truediv_finite:
  assumes "b \<noteq> 0" and "fl (of_int a / of_int b) = Float q"
  shows "int_truediv a b = Inr (Float q)"
  using assms by (simp add: int_truediv_def)

lemma is_finiteE:
  assumes "is_finite a"
  obtains q where "a = Float q"
  using assms by (cases a) (simp_all add: is_finite_def)

lemma fl_literal_3_10: "fl (3 / 10) = Float (5404319552844595 / 18014398509481984)"
  by code_simp


section \<open>Palette extractor: dominant colours\<close>

lemma set_every_nth: "set (every_nth k xs) \<subseteq> set xs"
proof (induction k xs rule: every_nth.induct)
  case (1 k) show ?case by simp
next
  case (2 k x xs)
  have "set (drop (k - 1) xs) \<subseteq> set xs" by (rule set_drop_subset)
  with 2 show ?case by auto
qed

lemma firsts_snoc: "firsts (xs @ [x]) = (if x \<in> set xs then firsts xs else firsts xs @ [x])"
  by (simp add: firsts_def)

lemma set_firsts [simp]: "set (firsts xs) = set xs"
  by (simp add: firsts_def)

lemma distinct_firsts [simp]: "distinct (firsts xs)"
  by (simp add: firsts_def)

lemma incr_map:
  "distinct ks \<Longrightarrow> incr x (map (\<lambda>k. (k, f k)) ks) =
     (if x \<in> set ks then map (\<lambda>k. (k, if k = x then Suc (f k) else f k)) ks
      else map (\<lambda>k. (k, f k)) ks @ [(x, 1)])"
  by (induction ks) auto

lemma counter_snoc: "counter (xs @ [x]) = incr x (counter xs)"
  by (simp add: counter_def)

lemma counter_eq: "counter xs = map (\<lambda>k. (k, count_list xs k)) (firsts xs)"
proof (induction xs rule: rev_induct)
  case Nil show ?case by (simp add: counter_def firsts_def)
next
  case (snoc x xs)
  show ?case
  proof (cases "x \<in> set xs")
    case True
    then show ?thesis
      by (simp add: counter_snoc snoc incr_map firsts_snoc)
  next
    case False
    then have "count_list xs x = 0" by (simp add: count_list_0_iff)
    with False show ?thesis
      by (auto simp add: counter_snoc snoc incr_map firsts_snoc)
  qed
qed

lemma first_index_less: "x \<in> set xs \<Longrightarrow> first_index xs x < length xs"
  by (induction xs) auto

lemma first_index_append_in: "x \<in> set xs \<Longrightarrow> first_index (xs @ ys) x = first_index xs x"
  by (induction xs) auto

lemma first_index_append_notin: "x \<notin> set xs \<Longrightarrow> first_index (xs @ ys) x = length xs + first_index ys x"
  by (induction xs) auto

lemma sorted_firsts: "sorted_wrt (\<lambda>a b. first_index xs a < first_index xs b) (firsts xs)"
proof (induction xs rule: rev_induct)
  case Nil show ?case by (simp add: firsts_def)
next
  case (snoc x xs)
  have keep: "sorted_wrt (\<lambda>a b. first_index (xs @ [x]) a < first_index (xs @ [x]) b) (firsts xs)"
    using snoc by (rule sorted_wrt_mono_rel[rotated]) (simp add: first_index_append_in)
  show ?case
  proof (cases "x \<in> set xs")
    case True with keep show ?thesis by (simp add: firsts_snoc)
  next
    case False
    with keep show ?thesis
      by (auto simp add: firsts_snoc sorted_wrt_append first_index_append_in first_index_append_notin first_index_less)
  qed
qed

lemma insort_key_lex:
  assumes "sorted_wrt (\<lambda>a b. f a < f b \<or> (f a = f b \<and> R a b)) ys" and "\<forall>y\<in>set ys. R x y"
  shows "sorted_wrt (\<lambda>a b. f a < f b \<or> (f a = f b \<and> R a b)) (insort_key f x ys)"
  using assms
proof (induction ys)
  case Nil then show ?case by simp
next
  case (Cons y ys)
  then show ?case by (auto simp: set_insort_key) 
qed

lemma sort_key_lex:
  "sorted_wrt R xs \<Longrightarrow> sorted_wrt (\<lambda>a b. f a < f b \<or> (f a = f b \<and> R a b)) (sort_key f xs)"
proof (induction xs)
  case Nil show ?case by simp
next
  case (Cons x xs)
  then show ?case by (simp add: insort_key_lex)
qed


lemma counter_ranked:
  "sorted_wrt (\<lambda>a b. first_index xs (fst a) < first_index xs (fst b)) (counter xs)"
  using sorted_firsts[of xs] by (simp add: counter_eq sorted_wrt_map)

lemma counter_member: "kc \<in> set (counter xs) \<Longrightarrow> fst kc \<in> set xs \<and> snd kc = count_list xs (fst kc)"
  by (auto simp add: counter_eq)

lemma set_most_common: "set (most_common n items) \<subseteq> set items"
  by (auto simp add: most_common_def Let_def split: option.splits dest: in_set_takeD)

lemma length_most_common: "length (most_common (Some n) items) \<le> nat n"
  by (simp add: most_common_def)

lemma most_common_ranked:
  assumes "sorted_wrt R items"
  shows "sorted_wrt (\<lambda>a b. snd b < snd a \<or> (snd a = snd b \<and> R a b)) (most_common n items)"
proof -
  let ?f = "\<lambda>kc::'a \<times> nat. - int (snd kc)"
  have "sorted_wrt (\<lambda>a b. ?f a < ?f b \<or> (?f a = ?f b \<and> R a b)) (sort_key ?f items)"
    using assms by (rule sort_key_lex)
  then have s: "sorted_wrt (\<lambda>a b. snd b < snd a \<or> (snd a = snd b \<and> R a b)) (sort_key ?f items)"
    by simp
  show ?thesis
    using s by (simp add: most_common_def Let_def sorted_wrt_take split: option.splits)
qed

lemma dominant_ranked:
  "sorted_wrt (\<lambda>a b. count_list xs b < count_list xs a \<or>
        (count_list xs a = count_list xs b \<and> first_index xs a < first_index xs b))
     (map fst (most_common n (counter xs)))"
proof -
  let ?R = "\<lambda>a b. first_index xs (fst a) < first_index xs (fst b)"
  have "sorted_wrt (\<lambda>a b. snd b < snd a \<or> (snd a = snd b \<and> ?R a b)) (most_common n (counter xs))"
    using counter_ranked by (rule most_common_ranked)
  then have "sorted_wrt (\<lambda>a b. count_list xs (fst b) < count_list xs (fst a) \<or>
        (count_list xs (fst a) = count_list xs (fst b) \<and> ?R a b)) (most_common n (counter xs))"
  proof (rule sorted_wrt_mono_rel[rotated])
    fix a b assume "a \<in> set (most_common n (counter xs))" "b \<in> set (most_common n (counter xs))"
      and h: "snd b < snd a \<or> (snd a = snd b \<and> ?R a b)"
    then have "a \<in> set (counter xs)" "b \<in> set (counter xs)"
      using set_most_common by blast+
    then have "snd a = count_list xs (fst a)" "snd b = count_list xs (fst b)"
      by (simp_all add: counter_member)
    with h show "count_list xs (fst b) < count_list xs (fst a) \<or>
        (count_list xs (fst a) = count_list xs (fst b) \<and> ?R a b)" by simp
  qed
  then show ?thesis by (simp add: sorted_wrt_map)
qed

lemma set_dominant: "set (map fst (most_common n (counter xs))) \<subseteq> set xs"
  using set_most_common[of n "counter xs"] counter_member[of _ xs] by auto

lemma set_slice_step: "slice_step xs q = Inr ys \<Longrightarrow> set ys \<subseteq> set xs"
  using set_every_nth[of _ xs] set_every_nth[of _ "rev xs"]
  by (auto simp add: slice_step_def split: if_splits)

lemma valid_rgb_all: "valid_rgb c"
proof -
  have "unat w \<le> 255" for w :: "8 word"
    using unsigned_less[of w, where 'a = nat] by simp
  then show ?thesis by (simp add: valid_rgb_def split: prod.splits)
qed

text \<open>
  Claim C4, as the code has it. For an image that the library could read and a sampling
  stride other than zero, \<open>get_dominant_colors\<close> returns for every requested count. The
  result has at most \<open>num_colors\<close> colours when that count is not negative and is empty
  when it is negative; each colour is one of the sampled pixels, with its three channels
  in 0..255; the colours come in non-increasing order of their frequency among the
  sampled pixels, and two colours of equal frequency come in the order of their first
  occurrence in the sampled pixels.
\<close>

theorem get_dominant_colors_ranked:
  assumes "quality \<noteq> 0"
  shows "\<exists>sampled cs.
           slice_step pixels quality = Inr sampled \<and>
           get_dominant_colors (Some pixels) num_colors quality = Inr cs \<and>
           length cs \<le> nat num_colors \<and>
           (num_colors < 0 \<longrightarrow> cs = []) \<and>
           set cs \<subseteq> set sampled \<and>
           (\<forall>c\<in>set cs. valid_rgb c) \<and>
           sorted_wrt (\<lambda>a b. count_list sampled b \<le> count_list sampled a) cs \<and>
           (\<forall>i j. i < j \<and> j < length cs \<and> count_list sampled (cs ! i) = count_list sampled (cs ! j)
              \<longrightarrow> first_index sampled (cs ! i) < first_index sampled (cs ! j))"
proof -
  from assms obtain sampled where sl: "slice_step pixels quality = Inr sampled"
    by (cases "0 < quality") (simp_all add: slice_step_def)
  define cs where "cs = map fst (most_common (Some num_colors) (counter sampled))"
  have g: "get_dominant_colors (Some pixels) num_colors quality = Inr cs"
    by (simp add: get_dominant_colors_def sl cs_def)
  have len: "length cs \<le> nat num_colors"
    using length_most_common[of num_colors "counter sampled"] by (simp add: cs_def)
  have neg: "num_colors < 0 \<longrightarrow> cs = []" using len by auto
  have sub: "set cs \<subseteq> set sampled"
    unfolding cs_def by (rule set_dominant)
  have val: "\<forall>c\<in>set cs. valid_rgb c" by (simp add: valid_rgb_all)
  have lex: "sorted_wrt (\<lambda>a b. count_list sampled b < count_list sampled a \<or>
        (count_list sampled a = count_list sampled b \<and> first_index sampled a < first_index sampled b)) cs"
    unfolding cs_def by (rule dominant_ranked)
  have ord: "sorted_wrt (\<lambda>a b. count_list sampled b \<le> count_list sampled a) cs"
    using lex by (rule sorted_wrt_mono_rel[rotated]) auto
  have tie: "\<forall>i j. i < j \<and> j < length cs \<and> count_list sampled (cs ! i) = count_list sampled (cs ! j)
              \<longrightarrow> first_index sampled (cs ! i) < first_index sampled (cs ! j)"
    using lex unfolding sorted_wrt_iff_nth_less by (metis less_irrefl)
  from sl g len neg sub val ord tie show ?thesis by blast
qed

lemma sample_dominant:
  "get_dominant_colors (Some [(1,2,3),(4,5,6),(4,5,6),(1,2,3),(0,0,0)]) 2 1 = Inr [(1,2,3),(4,5,6)]"
  by (simp add: get_dominant_colors_def slice_step_def counter_def most_common_def)

theorem get_dominant_colors_ranked_witness:
  "(1::int) \<noteq> 0 \<and>
   get_dominant_colors (Some [(1,2,3),(4,5,6),(4,5,6),(1,2,3),(0,0,0)]) 2 1 = Inr [(1,2,3),(4,5,6)] \<and>
   (\<exists>sampled cs.
           slice_step [(1,2,3),(4,5,6),(4,5,6),(1,2,3),(0,0,0)] 1 = Inr sampled \<and>
           get_dominant_colors (Some [(1,2,3),(4,5,6),(4,5,6),(1,2,3),(0,0,0)]) 2 1 = Inr cs \<and>
           length cs \<le> nat 2 \<and>
           (2 < (0::int) \<longrightarrow> cs = []) \<and>
           set cs \<subseteq> set sampled \<and>
           (\<forall>c\<in>set cs. valid_rgb c) \<and>
           sorted_wrt (\<lambda>a b. count_list sampled b \<le> count_list sampled a) cs \<and>
           (\<forall>i j. i < j \<and> j < length cs \<and> count_list sampled (cs ! i) = count_list sampled (cs ! j)
              \<longrightarrow> first_index sampled (cs ! i) < first_index sampled (cs ! j)))"
proof -
  have h1: "(1::int) \<noteq> 0" by simp
  show ?thesis
    using h1 sample_dominant get_dominant_colors_ranked[OF h1, of "[(1,2,3),(4,5,6),(4,5,6),(1,2,3),(0,0,0)]" 2]
    by blast
qed

text \<open>The claim as stated fails for a negative count: the result for the count \<open>- 1\<close> is
  the empty list, which does not have at most \<open>- 1\<close> colours.\<close>

theorem negative_count_counterexample:
  "get_dominant_colors (Some [(1,2,3),(4,5,6),(4,5,6)]) (- 1) 1 = Inr [] \<and>
   \<not> int (length ([] :: rgb list)) \<le> - 1"
  by (simp add: get_dominant_colors_def slice_step_def counter_def most_common_def)

section \<open>Palette extractor: colour names\<close>

lemma fsub_Float: "fsub (Float x) (Float y) = fl (x - y)"
  by (simp add: fsub_def)

lemma fdiv_Float: "y \<noteq> 0 \<Longrightarrow> fdiv (Float x) (Float y) = Inr (fl (x / y))"
  by (simp add: fdiv_def)

lemma nearest_fractions:
  "nearest (1 / 256) = 1 / 256" "nearest (- (1 / 256)) = - (1 / 256)"
  "nearest (- (1 / 2048)) = - (1 / 2048)" "nearest (2047 / 2048) = 2047 / 2048"
  "nearest (- (1 / 4)) = - (1 / 4)" "nearest (7 / 8) = 7 / 8" "nearest (3 / 4) = 3 / 4"
  "nearest (- 1) = - 1" "nearest (92115 / 256) = 92115 / 256"
  by code_simp+

lemma fl_unit:
  assumes "0 \<le> x" "x \<le> 1"
  shows "fl x = Float (nearest x) \<and> 0 \<le> nearest x \<and> nearest x \<le> 1"
  using assms by (rule fl_between) (simp_all add: nearest_consts)

lemma channel_range:
  assumes "0 \<le> k" "k \<le> 255"
  shows "0 \<le> channel k \<and> channel k \<le> 1 \<and> fl (of_int k / 255) = Float (channel k)"
proof -
  have "(0::rat) \<le> of_int k / 255" using assms(1) by simp
  moreover have "(of_int k :: rat) / 255 \<le> 1" using assms(2) by simp
  ultimately show ?thesis using fl_unit[of "of_int k / 255"] by (simp add: channel_def)
qed

lemma channel_mono: "j \<le> k \<Longrightarrow> channel j \<le> channel k"
  unfolding channel_def by (rule nearest_mono) (simp add: divide_right_mono)

lemma channel_error:
  assumes "0 \<le> k" "k \<le> 255"
  shows "\<bar>channel k - of_int k / 255\<bar> \<le> 1 / 2 ^ 53"
proof -
  have "\<bar>(of_int k :: rat) / 255\<bar> \<le> 1" using assms by simp
  then show ?thesis unfolding channel_def by (rule nearest_error_unit)
qed

lemma abs_error_bounds:
  fixes x y u :: rat
  assumes "\<bar>x - y\<bar> \<le> u"
  shows "y - u \<le> x \<and> x \<le> y + u"
  using assms by (simp add: abs_le_iff)

lemma channel_gap:
  assumes "0 \<le> j" "j < k" "k \<le> 255"
  shows "1 / 255 - 2 * (1 / 2 ^ 53) \<le> channel k - channel j"
proof -
  define u :: rat where "u = 1 / 2 ^ 53"
  have "\<bar>channel j - of_int j / 255\<bar> \<le> u"
    unfolding u_def using assms by (intro channel_error) simp_all
  then have j: "channel j \<le> of_int j / 255 + u" using abs_error_bounds by blast
  have "\<bar>channel k - of_int k / 255\<bar> \<le> u"
    unfolding u_def using assms by (intro channel_error) simp_all
  then have k: "of_int k / 255 - u \<le> channel k" using abs_error_bounds by blast
  have "j + 1 \<le> k" using assms(2) by simp
  then have "(of_int (j + 1) :: rat) \<le> of_int k" by (simp only: of_int_le_iff)
  then have g: "(of_int j :: rat) / 255 + 1 / 255 \<le> of_int k / 255" by (simp add: field_simps)
  from j k g have "1 / 255 - 2 * u \<le> channel k - channel j" by linarith
  then show ?thesis by (simp only: u_def)
qed

lemma channel_less: "channel j < channel k \<Longrightarrow> j < k"
  using channel_mono[of k j] by (cases "j < k") simp_all

lemma div_ge_self:
  fixes x p :: rat
  assumes "0 \<le> x" "0 < p" "p \<le> 1"
  shows "x \<le> x / p"
proof -
  have "x * p \<le> x * 1" using assms by (intro mult_left_mono) simp_all
  then show ?thesis using assms(2) by (simp add: pos_le_divide_eq)
qed

text \<open>The cyan-side and yellow-side ratios differ by at least \<open>1 / 256\<close> when they
  differ at all: the channels differ by at least \<open>1 / 255\<close>, and six roundings move the
  difference by less than \<open>6 / 2 ^ 53\<close>.\<close>

lemma ratio_gap:
  fixes gi bi :: int
  assumes g: "0 \<le> gi" "gi \<le> 255" and b: "0 \<le> bi" "bi \<le> 255"
      and mx: "channel gi \<le> Mx" "channel bi \<le> Mx" "Mx \<le> 1"
      and p: "0 < p" "p \<le> 1"
      and d: "nearest (Mx - channel gi) \<le> p" "nearest (Mx - channel bi) \<le> p"
      and lt: "nearest (nearest (Mx - channel bi) / p) < nearest (nearest (Mx - channel gi) / p)"
  shows "1 / 256 \<le> nearest (nearest (Mx - channel gi) / p) - nearest (nearest (Mx - channel bi) / p)"
proof -
  define u :: rat where "u = 1 / 2 ^ 53"
  define G where "G = channel gi"
  define B where "B = channel bi"
  define dG where "dG = nearest (Mx - G)"
  define dB where "dB = nearest (Mx - B)"
  define gc where "gc = nearest (dG / p)"
  define bc where "bc = nearest (dB / p)"
  have G0: "0 \<le> G" "G \<le> 1" using channel_range[OF g] by (simp_all add: G_def)
  have B0: "0 \<le> B" "B \<le> 1" using channel_range[OF b] by (simp_all add: B_def)
  have dG0: "0 \<le> dG" unfolding dG_def using mx(1) by (intro nearest_nonneg) (simp add: G_def)
  have dB0: "0 \<le> dB" unfolding dB_def using mx(2) by (intro nearest_nonneg) (simp add: B_def)
  have lt': "bc < gc" using lt by (simp add: bc_def gc_def dB_def dG_def B_def G_def)
  have q: "dB / p < dG / p"
  proof (rule ccontr)
    assume "\<not> dB / p < dG / p"
    then have "dG / p \<le> dB / p" by simp
    then have "gc \<le> bc" unfolding gc_def bc_def by (rule nearest_mono)
    with lt' show False by simp
  qed
  then have dlt: "dB < dG" using p(1) by (simp add: divide_less_cancel)
  have xlt: "Mx - B < Mx - G"
  proof (rule ccontr)
    assume "\<not> Mx - B < Mx - G"
    then have "Mx - G \<le> Mx - B" by simp
    then have "dG \<le> dB" unfolding dG_def dB_def by (rule nearest_mono)
    with dlt show False by simp
  qed
  then have "G < B" by simp
  then have "gi < bi" unfolding G_def B_def by (rule channel_less)
  with g(1) b(2) have "1 / 255 - 2 * (1 / 2 ^ 53) \<le> channel bi - channel gi"
    by (intro channel_gap) simp_all
  then have gap: "1 / 255 - 2 * u \<le> B - G" by (simp only: u_def B_def G_def)
  have "\<bar>Mx - G\<bar> \<le> 1" using G0 mx(1,3) by (simp add: G_def abs_le_iff)
  then have "\<bar>nearest (Mx - G) - (Mx - G)\<bar> \<le> 1 / 2 ^ 53" by (rule nearest_error_unit)
  then have eG: "Mx - G - u \<le> dG" unfolding dG_def u_def using abs_error_bounds by blast
  have "\<bar>Mx - B\<bar> \<le> 1" using B0 mx(2,3) by (simp add: B_def abs_le_iff)
  then have "\<bar>nearest (Mx - B) - (Mx - B)\<bar> \<le> 1 / 2 ^ 53" by (rule nearest_error_unit)
  then have eB: "dB \<le> Mx - B + u" unfolding dB_def u_def using abs_error_bounds by blast
  have dd: "1 / 255 - 4 * u \<le> dG - dB" using gap eG eB by linarith
  have "0 \<le> dG - dB" using dlt by simp
  then have "dG - dB \<le> (dG - dB) / p" using p by (rule div_ge_self)
  then have qq: "1 / 255 - 4 * u \<le> dG / p - dB / p" using dd by (simp add: diff_divide_distrib)
  have "0 \<le> dG / p" "dG / p \<le> 1" using dG0 d(1) p(1) by (simp_all add: dG_def G_def)
  then have "\<bar>dG / p\<bar> \<le> 1" by simp
  then have "\<bar>nearest (dG / p) - dG / p\<bar> \<le> 1 / 2 ^ 53" by (rule nearest_error_unit)
  then have egc: "dG / p - u \<le> gc" unfolding gc_def u_def using abs_error_bounds by blast
  have "0 \<le> dB / p" "dB / p \<le> 1" using dB0 d(2) p(1) by (simp_all add: dB_def B_def)
  then have "\<bar>dB / p\<bar> \<le> 1" by simp
  then have "\<bar>nearest (dB / p) - dB / p\<bar> \<le> 1 / 2 ^ 53" by (rule nearest_error_unit)
  then have ebc: "bc \<le> dB / p + u" unfolding bc_def u_def using abs_error_bounds by blast
  have "1 / 255 - 6 * u \<le> gc - bc" using qq egc ebc by linarith
  moreover have "1 / 256 \<le> 1 / 255 - 6 * u" by (simp add: u_def)
  ultimately have "1 / 256 \<le> gc - bc" by simp
  then show ?thesis by (simp only: gc_def bc_def dG_def dB_def G_def B_def)
qed

lemma fmod1_unit:
  assumes "- (1 / 4) \<le> t" "t \<le> 7 / 8" and "t < 0 \<longrightarrow> t \<le> - (1 / 2048)"
  shows "\<exists>h. fmod1 (Float t) = Float h \<and> 0 \<le> h \<and> h \<le> 2047 / 2048"
proof (cases "0 \<le> t")
  case True
  then have "\<lfloor>t\<rfloor> = 0" using assms(2) by (simp add: floor_eq_iff)
  with True assms(2) show ?thesis by simp
next
  case False
  then have neg: "t < 0" by simp
  then have c: "\<lceil>t\<rceil> = 0" using assms(1) by (simp add: ceiling_eq_iff)
  have up: "t + 1 \<le> 2047 / 2048" using assms(3) neg by simp
  have lo: "3 / 4 \<le> t + 1" using assms(1) by simp
  have "fl (t + 1) = Float (nearest (t + 1)) \<and> 3 / 4 \<le> nearest (t + 1) \<and>
      nearest (t + 1) \<le> 2047 / 2048"
    using lo up by (rule fl_between) (simp_all add: nearest_fractions)
  then show ?thesis using neg c by simp
qed

lemma hue_of_channels:
  fixes ri gi bi :: int
  assumes r: "0 \<le> ri" "ri \<le> 255" and g: "0 \<le> gi" "gi \<le> 255" and b: "0 \<le> bi" "bi \<le> 255"
  shows "\<exists>h s. rgb_to_hsv (Float (channel ri)) (Float (channel gi)) (Float (channel bi)) =
              Inr (Float h, Float s, Float (max (max (channel ri) (channel gi)) (channel bi))) \<and>
            0 \<le> h \<and> h \<le> 2047 / 2048"
proof -
  define R where "R = channel ri"
  define G where "G = channel gi"
  define B where "B = channel bi"
  define Mx where "Mx = max (max R G) B"
  define Mn where "Mn = min (min R G) B"
  have R0: "0 \<le> R" "R \<le> 1" using channel_range[OF r] by (simp_all add: R_def)
  have G0: "0 \<le> G" "G \<le> 1" using channel_range[OF g] by (simp_all add: G_def)
  have B0: "0 \<le> B" "B \<le> 1" using channel_range[OF b] by (simp_all add: B_def)
  have ord: "Mn \<le> R" "R \<le> Mx" "Mn \<le> G" "G \<le> Mx" "Mn \<le> B" "B \<le> Mx"
    by (simp_all add: Mx_def Mn_def)
  have Mx1: "Mx \<le> 1" using R0 G0 B0 by (simp add: Mx_def)
  have Mn0: "0 \<le> Mn" using R0 G0 B0 by (simp add: Mn_def)
  show ?thesis
  proof (cases "Mn = Mx")
    case True
    have "rgb_to_hsv (Float R) (Float G) (Float B) = Inr (Float 0, Float 0, Float Mx)"
      unfolding rgb_to_hsv_def Let_def pymax_Float pymin_Float Mx_def[symmetric] Mn_def[symmetric]
      by (simp add: feq_def True)
    then show ?thesis by (auto simp add: R_def G_def B_def Mx_def)
  next
    case False
    then have lt: "Mn < Mx" using ord(1,2) by simp
    have "Mx = channel ri \<or> Mx = channel gi \<or> Mx = channel bi"
      by (auto simp add: Mx_def R_def G_def B_def max_def)
    then obtain M where M: "Mx = channel M" "0 \<le> M" "M \<le> 255"
      using r g b by blast
    have "Mn = channel ri \<or> Mn = channel gi \<or> Mn = channel bi"
      by (auto simp add: Mn_def R_def G_def B_def min_def)
    then obtain m where m: "Mn = channel m" "0 \<le> m" "m \<le> 255"
      using r g b by blast
    have "m < M" using lt unfolding M(1) m(1) by (rule channel_less)
    with m(2) M(3) have "1 / 255 - 2 * (1 / 2 ^ 53) \<le> channel M - channel m"
      by (intro channel_gap) simp_all
    then have gap: "1 / 256 \<le> Mx - Mn" by (simp add: M(1) m(1))
    have top: "Mx - Mn \<le> 1" using Mx1 Mn0 by simp
    define p where "p = nearest (Mx - Mn)"
    have fp: "fl (Mx - Mn) = Float p" and p1: "1 / 256 \<le> p" and p2: "p \<le> 1"
      using fl_between[OF gap top] by (simp_all add: p_def nearest_fractions nearest_consts)
    have p0: "0 < p" using p1 by simp
    have Mxp: "1 / 256 \<le> Mx" using gap Mn0 by simp
    then have Mx0: "Mx \<noteq> 0" by auto
    have "p / Mx \<le> 256"
    proof -
      have "p \<le> 256 * Mx" using p2 Mxp by simp
      then show ?thesis using Mxp by (simp add: pos_divide_le_eq)
    qed
    moreover have "0 \<le> p / Mx" using p0 Mxp by simp
    ultimately have "fl (p / Mx) = Float (nearest (p / Mx)) \<and> 0 \<le> nearest (p / Mx) \<and>
        nearest (p / Mx) \<le> 256"
      by (intro fl_between) (simp_all add: nearest_consts)
    then have fs: "fl (p / Mx) = Float (nearest (p / Mx))" by simp
    have diff: "fl (Mx - X) = Float (nearest (Mx - X)) \<and> 0 \<le> nearest (Mx - X) \<and>
        nearest (Mx - X) \<le> p" if "Mn \<le> X" "X \<le> Mx" for X
    proof -
      have a: "0 \<le> Mx - X" using that(2) by simp
      have c: "Mx - X \<le> 1" using that(1) top by simp
      have "nearest (Mx - X) \<le> nearest (Mx - Mn)" using that(1) by (intro nearest_mono) simp
      with fl_unit[OF a c] show ?thesis by (simp add: p_def)
    qed
    have ratio: "fl (d / p) = Float (nearest (d / p)) \<and> 0 \<le> nearest (d / p) \<and>
        nearest (d / p) \<le> 1" if "0 \<le> d" "d \<le> p" for d
    proof -
      have "0 \<le> d / p" "d / p \<le> 1" using that p0 by simp_all
      then show ?thesis by (rule fl_unit)
    qed
    define rc where "rc = nearest (nearest (Mx - R) / p)"
    define gc where "gc = nearest (nearest (Mx - G) / p)"
    define bc where "bc = nearest (nearest (Mx - B) / p)"
    note dR = diff[OF ord(1,2)] and dG = diff[OF ord(3,4)] and dB = diff[OF ord(5,6)]
    have cR: "fl (nearest (Mx - R) / p) = Float rc" "0 \<le> rc" "rc \<le> 1"
      using ratio[of "nearest (Mx - R)"] dR by (simp_all add: rc_def)
    have cG: "fl (nearest (Mx - G) / p) = Float gc" "0 \<le> gc" "gc \<le> 1"
      using ratio[of "nearest (Mx - G)"] dG by (simp_all add: gc_def)
    have cB: "fl (nearest (Mx - B) / p) = Float bc" "0 \<le> bc" "bc \<le> 1"
      using ratio[of "nearest (Mx - B)"] dB by (simp_all add: bc_def)
    define H where "H = (if feq (Float R) (Float Mx) then fsub (Float bc) (Float gc)
                         else if feq (Float G) (Float Mx) then fsub (fadd (Float 2) (Float rc)) (Float bc)
                         else fsub (fadd (Float 4) (Float gc)) (Float rc))"
    have "\<exists>e. H = Float e \<and> - 1 \<le> e \<and> e \<le> 5 \<and> (e < 0 \<longrightarrow> e \<le> - (1 / 256))"
    proof -
      consider "R = Mx" | "R \<noteq> Mx" "G = Mx" | "R \<noteq> Mx" "G \<noteq> Mx" by blast
      then show ?thesis
      proof cases
        case 1
        have h: "H = fl (bc - gc)" by (simp add: H_def feq_def 1 fsub_Float)
        have "- 1 \<le> bc - gc" "bc - gc \<le> 1" using cG cB by simp_all
        then have f: "fl (bc - gc) = Float (nearest (bc - gc)) \<and> - 1 \<le> nearest (bc - gc) \<and>
            nearest (bc - gc) \<le> 1"
          by (rule fl_between) (simp_all add: nearest_fractions nearest_consts)
        have n: "nearest (bc - gc) \<le> - (1 / 256)" if "nearest (bc - gc) < 0"
        proof -
          have "bc < gc"
          proof (rule ccontr)
            assume "\<not> bc < gc"
            then have "0 \<le> bc - gc" by simp
            then have "0 \<le> nearest (bc - gc)" by (rule nearest_nonneg)
            with that show False by simp
          qed
          then have "nearest (nearest (Mx - channel bi) / p) < nearest (nearest (Mx - channel gi) / p)"
            by (simp add: bc_def gc_def B_def G_def)
          with g b have "1 / 256 \<le> nearest (nearest (Mx - channel gi) / p) -
              nearest (nearest (Mx - channel bi) / p)"
            using ord(4,6) Mx1 p0 p2 dG dB
            by (intro ratio_gap) (simp_all add: G_def B_def)
          then have "bc - gc \<le> - (1 / 256)" by (simp add: bc_def gc_def B_def G_def)
          then have "nearest (bc - gc) \<le> nearest (- (1 / 256))" by (rule nearest_mono)
          then show ?thesis by (simp only: nearest_fractions)
        qed
        from f n h show ?thesis by auto
      next
        case 2
        have "2 \<le> 2 + rc" "2 + rc \<le> 3" using cR by simp_all
        then have t: "fl (2 + rc) = Float (nearest (2 + rc)) \<and> 2 \<le> nearest (2 + rc) \<and>
            nearest (2 + rc) \<le> 3"
          by (rule fl_between) (simp_all add: nearest_consts)
        have "1 \<le> nearest (2 + rc) - bc" "nearest (2 + rc) - bc \<le> 3" using t cB by simp_all
        then have f: "fl (nearest (2 + rc) - bc) = Float (nearest (nearest (2 + rc) - bc)) \<and>
            1 \<le> nearest (nearest (2 + rc) - bc) \<and> nearest (nearest (2 + rc) - bc) \<le> 3"
          by (rule fl_between) (simp_all add: nearest_consts)
        have "H = fl (nearest (2 + rc) - bc)" using 2 t by (simp add: H_def feq_def fsub_Float)
        with f show ?thesis by auto
      next
        case 3
        have "4 \<le> 4 + gc" "4 + gc \<le> 5" using cG by simp_all
        then have t: "fl (4 + gc) = Float (nearest (4 + gc)) \<and> 4 \<le> nearest (4 + gc) \<and>
            nearest (4 + gc) \<le> 5"
          by (rule fl_between) (simp_all add: nearest_consts)
        have "3 \<le> nearest (4 + gc) - rc" "nearest (4 + gc) - rc \<le> 5" using t cR by simp_all
        then have f: "fl (nearest (4 + gc) - rc) = Float (nearest (nearest (4 + gc) - rc)) \<and>
            3 \<le> nearest (nearest (4 + gc) - rc) \<and> nearest (nearest (4 + gc) - rc) \<le> 5"
          by (rule fl_between) (simp_all add: nearest_consts)
        have "H = fl (nearest (4 + gc) - rc)" using 3 t by (simp add: H_def feq_def fsub_Float)
        with f show ?thesis by auto
      qed
    qed
    then obtain e where e: "H = Float e" "- 1 \<le> e" "e \<le> 5" "e < 0 \<longrightarrow> e \<le> - (1 / 256)" by blast
    define t where "t = nearest (e / 6)"
    have "- (1 / 4) \<le> e / 6" "e / 6 \<le> 7 / 8" using e(2,3) by simp_all
    then have ft: "fl (e / 6) = Float t \<and> - (1 / 4) \<le> t \<and> t \<le> 7 / 8"
      unfolding t_def by (rule fl_between) (simp_all add: nearest_fractions)
    have tn: "t \<le> - (1 / 2048)" if "t < 0"
    proof -
      have "e < 0"
      proof (rule ccontr)
        assume "\<not> e < 0"
        then have "0 \<le> e / 6" by simp
        then have "0 \<le> t" unfolding t_def by (rule nearest_nonneg)
        with that show False by simp
      qed
      with e(4) have "e / 6 \<le> - (1 / 2048)" by simp
      then have "t \<le> nearest (- (1 / 2048))" unfolding t_def by (rule nearest_mono)
      then show ?thesis by (simp only: nearest_fractions)
    qed
    obtain h where h: "fmod1 (Float t) = Float h" "0 \<le> h" "h \<le> 2047 / 2048"
      using fmod1_unit[of t] ft tn by blast
    have step: "rgb_to_hsv (Float R) (Float G) (Float B) =
        (case fdiv H (Float 6) of
           Inl err \<Rightarrow> Inl err
         | Inr h' \<Rightarrow> Inr (fmod1 h', Float (nearest (p / Mx)), Float Mx))"
      unfolding rgb_to_hsv_def Let_def pymax_Float pymin_Float Mx_def[symmetric] Mn_def[symmetric]
        H_def
      using False p0 Mx0
      by (simp add: feq_def fsub_Float fp fdiv_Float fs dR dG dB cR cG cB)
    have "fdiv H (Float 6) = Inr (Float t)" using ft by (simp add: e(1) fdiv_Float)
    then have "rgb_to_hsv (Float R) (Float G) (Float B) =
        Inr (Float h, Float (nearest (p / Mx)), Float Mx)"
      by (simp add: step h(1) del: fmod1.simps)
    with h(2,3) show ?thesis by (auto simp add: R_def G_def B_def Mx_def)
  qed
qed

lemma uint_channel:
  fixes w :: "8 word"
  shows "0 \<le> uint w \<and> uint w \<le> 255"
proof -
  have "uint w < 2 ^ LENGTH(8)" by (rule unsigned_less)
  then show ?thesis by simp
qed

lemma int_truediv_channel:
  fixes w :: "8 word"
  shows "int_truediv (uint w) 255 = Inr (Float (channel (uint w)))"
proof -
  have "fl (of_int (uint w) / of_int 255) = Float (channel (uint w))"
    using channel_range[of "uint w"] uint_channel[of w] by simp
  then show ?thesis by (intro int_truediv_finite) simp_all
qed

lemma hsv_degrees_value:
  "\<exists>h s v. hsv_degrees c = Inr (Float h, Float s, Float v) \<and> 0 \<le> h \<and> h < 360"
proof -
  obtain r g b where c: "c = (r, g, b)" by (cases c) auto
  obtain h s where hs:
    "rgb_to_hsv (Float (channel (uint r))) (Float (channel (uint g))) (Float (channel (uint b))) =
       Inr (Float h, Float s, Float (max (max (channel (uint r)) (channel (uint g))) (channel (uint b))))"
    "0 \<le> h" "h \<le> 2047 / 2048"
    using hue_of_channels[of "uint r" "uint g" "uint b"] uint_channel by blast
  have "0 \<le> h * 360" "h * 360 \<le> 92115 / 256" using hs(2,3) by simp_all
  then have f: "fl (h * 360) = Float (nearest (h * 360)) \<and> 0 \<le> nearest (h * 360) \<and>
      nearest (h * 360) \<le> 92115 / 256"
    by (rule fl_between) (simp_all add: nearest_fractions)
  have "hsv_degrees c = Inr (Float (nearest (h * 360)), Float s,
      Float (max (max (channel (uint r)) (channel (uint g))) (channel (uint b))))"
    by (simp add: hsv_degrees_def c int_truediv_channel hs(1) f)
  moreover have "nearest (h * 360) < 360" using f by simp
  ultimately show ?thesis using f by blast
qed

lemma name_of_hsv_in_names: "name_of_hsv h s v \<in> set color_names"
  by (simp add: name_of_hsv_def color_names_def)

lemma name_of_hsv_spec:
  assumes "0 \<le> h" "h < 360"
  shows "spec_color_name h s v = Some (name_of_hsv (Float h) s v)"
  using assms
  by (simp add: spec_color_name_def name_of_hsv_def hue_ranges_def in_range_def fge_def feq_def)

lemma hue_ranges_partition:
  assumes "0 \<le> h" "h < 360"
  shows "length (filter (in_range h) hue_ranges) = 1"
  using assms by (simp add: hue_ranges_def in_range_def)

text \<open>
  Claim C5. The classification is total on RGB triples with channels in 0..255: the
  conversion to hue, saturation and value returns three finite floats, the hue in degrees
  lies in \<open>[0, 360)\<close>, and the name returned is one of the ten names. It is the name the
  specification's rule gives for the three floats: White, Black or Gray by the value
  thresholds when the saturation is below 0.1, otherwise the name of the one row of the
  half-open hue table that contains the hue, the rows from 330 up to 360 being Red.
\<close>

theorem get_color_name_total:
  "\<exists>h s v. hsv_degrees c = Inr (Float h, Float s, Float v) \<and>
           0 \<le> h \<and> h < 360 \<and>
           get_color_name c = Inr (name_of_hsv (Float h) (Float s) (Float v)) \<and>
           name_of_hsv (Float h) (Float s) (Float v) \<in> set color_names \<and>
           spec_color_name h (Float s) (Float v) = Some (name_of_hsv (Float h) (Float s) (Float v)) \<and>
           length (filter (in_range h) hue_ranges) = 1"
proof -
  obtain h s v where hsv: "hsv_degrees c = Inr (Float h, Float s, Float v)" and
    hr: "0 \<le> h" "h < 360"
    using hsv_degrees_value[of c] by blast
  have "get_color_name c = Inr (name_of_hsv (Float h) (Float s) (Float v))"
    by (simp add: get_color_name_def hsv)
  with hsv hr name_of_hsv_in_names name_of_hsv_spec[OF hr] hue_ranges_partition[OF hr]
  show ?thesis by blast
qed

lemma threshold_names:
  "get_color_name (240, 69, 12) = Inr ''Red''"
  "get_color_name (45, 50, 50) = Inr ''Gray''"
  "get_color_name (36, 30, 33) = Inr ''Magenta''"
  by code_simp+

lemma threshold_hsv:
  "hsv_degrees (240, 69, 12) =
     Inr (Float (8444249301319677 / 562949953421312), Float (4278419646001971 / 4503599627370496),
          Float (4238682002231055 / 4503599627370496))"
  by code_simp

theorem get_color_name_total_witness:
  "get_color_name (240, 69, 12) = Inr ''Red'' \<and>
   get_color_name (45, 50, 50) = Inr ''Gray'' \<and>
   get_color_name (36, 30, 33) = Inr ''Magenta'' \<and>
   hsv_degrees (240, 69, 12) =
     Inr (Float (8444249301319677 / 562949953421312), Float (4278419646001971 / 4503599627370496),
          Float (4238682002231055 / 4503599627370496)) \<and>
   8444249301319677 / 562949953421312 < (15::rat) \<and>
   spec_color_name (8444249301319677 / 562949953421312)
     (Float (4278419646001971 / 4503599627370496)) (Float (4238682002231055 / 4503599627370496)) =
     Some ''Red''"
proof -
  obtain h s v where a: "hsv_degrees (240, 69, 12) = Inr (Float h, Float s, Float v)"
    and b: "get_color_name (240, 69, 12) = Inr (name_of_hsv (Float h) (Float s) (Float v))"
    and d: "spec_color_name h (Float s) (Float v) = Some (name_of_hsv (Float h) (Float s) (Float v))"
    using get_color_name_total[of "(240, 69, 12)"] by blast
  from a threshold_hsv have e: "h = 8444249301319677 / 562949953421312"
      "s = 4278419646001971 / 4503599627370496" "v = 4238682002231055 / 4503599627370496"
    by simp_all
  from b threshold_names(1) have "name_of_hsv (Float h) (Float s) (Float v) = ''Red''" by simp
  with d have "spec_color_name h (Float s) (Float v) = Some ''Red''" by simp
  then have f: "spec_color_name (8444249301319677 / 562949953421312)
     (Float (4278419646001971 / 4503599627370496)) (Float (4238682002231055 / 4503599627370496)) =
     Some ''Red''" by (simp only: e)
  have l: "8444249301319677 / 562949953421312 < (15::rat)" by simp
  from threshold_names threshold_hsv l f show ?thesis by blast
qed

section \<open>Commit analyzer: the empty commit list\<close>

lemma analyze_commit_messages_empty:
  "analyze_commit_messages [] =
     Inr \<lparr>total_commits = 0, avg_message_length = 0, conventional_commits = 0,
          conventional_percentage = 0,
          commit_types = [(''feat'', 0), (''fix'', 0), (''docs'', 0), (''style'', 0),
                          (''refactor'', 0), (''test'', 0), (''chore'', 0)]\<rparr>"
  by (simp add: analyze_commit_messages_def commit_type_tags_def)

lemma analyze_file_changes_empty:
  "analyze_file_changes [] =
     Inr \<lparr>total_additions = 0, total_deletions = 0, net_lines = 0,
          avg_additions_per_commit = 0, avg_deletions_per_commit = 0,
          file_extensions = [], most_changed_files = []\<rparr>"
  by (simp add: analyze_file_changes_def most_common_def)

lemma analyze_commit_frequency_empty:
  "analyze_commit_frequency [] = \<lparr>by_hour = [], by_day = [], by_date = []\<rparr>"
  by (simp add: analyze_commit_frequency_def counter_def)

lemma analyze_authors_empty:
  "analyze_authors [] = \<lparr>total_authors = 0, author_commits = [], author_stats = []\<rparr>"
  by (simp add: analyze_authors_def counter_def most_common_def)

lemma get_productivity_score_empty: "get_productivity_score days [] = Inr 0"
  by (simp add: get_productivity_score_def)

lemma generate_report_empty:
  "generate_report days [] = Inr (Message ''No commits found in the specified time range.'')"
  by (simp add: generate_report_def)

text \<open>
  Claim C3. For a commit list without commits the report is the message that no commits
  were found; the message and file aggregates return without a division error, their
  averages and percentages being 0; and the productivity score is 0.
\<close>

theorem empty_commit_set_report:
  "generate_report days [] = Inr (Message ''No commits found in the specified time range.'') \<and>
   analyze_commit_messages [] =
     Inr \<lparr>total_commits = 0, avg_message_length = 0, conventional_commits = 0,
          conventional_percentage = 0,
          commit_types = [(''feat'', 0), (''fix'', 0), (''docs'', 0), (''style'', 0),
                          (''refactor'', 0), (''test'', 0), (''chore'', 0)]\<rparr> \<and>
   analyze_file_changes [] =
     Inr \<lparr>total_additions = 0, total_deletions = 0, net_lines = 0,
          avg_additions_per_commit = 0, avg_deletions_per_commit = 0,
          file_extensions = [], most_changed_files = []\<rparr> \<and>
   get_productivity_score days [] = Inr 0"
  by (simp only: generate_report_empty analyze_commit_messages_empty analyze_file_changes_empty
      get_productivity_score_empty simp_thms)

text \<open>
  Claim C9. \<^verbatim>\<open>export_json\<close> on a commit list without commits returns the document
  with the keys metadata, frequency, messages, files, authors and productivity_score,
  where the frequency maps are empty, the totals, averages and percentages are 0 and the
  score is 0; it does so for every window, while the report for the same list is the
  one-line message.
\<close>

theorem export_json_empty:
  "export_json repo days author [] = Inr (empty_document repo days author) \<and>
   generate_report days [] = Inr (Message ''No commits found in the specified time range.'')"
  by (simp add: export_json_def empty_document_def analyze_commit_messages_empty
      analyze_file_changes_empty analyze_commit_frequency_empty analyze_authors_empty
      get_productivity_score_empty generate_report_empty)

section \<open>Commit analyzer: a failing git command\<close>

lemma parse_log_empty: "parse_log fromiso [] = Inr []"
  by (simp add: parse_log_def fetch_step_def is_commit_line_def strip_def strip_by_def flush_def)

lemma fetch_commits_failed:
  assumes "since_date env days = Some since" and "git_log env = CalledProcessError"
  shows "fetch_commits env days = ([GitCommandError], Inr [])"
  using assms by (simp add: fetch_commits_def run_git_command_def parse_log_empty)

lemma fetch_commits_not_started:
  assumes "since_date env days = Some since" and "git_log env = SpawnError"
  shows "fetch_commits env days = ([], Inl OSError)"
  using assms by (simp add: fetch_commits_def run_git_command_def)

lemma export_json_no_commits:
  "export_json repo days author [] = Inr (empty_document repo days author)"
  by (simp add: export_json_def empty_document_def analyze_commit_messages_empty
      analyze_file_changes_empty analyze_commit_frequency_empty analyze_authors_empty
      get_productivity_score_empty)

text \<open>
  Claim C1, as the code has it. When the git command was run and exited with a status
  other than 0, \<^verbatim>\<open>run_git_command\<close> prints a message and returns the empty output; the
  run goes on with no commits and prints the message that no commits were found. Without
  an export (none asked for, or the empty path) it ends with exit status 0. With an export
  it writes the document of the empty commit list and ends with exit status 0 when the
  file can be opened, and ends with a traceback and exit status 1, after the report, when
  it cannot. A process that could not be started is not caught and ends the run with a
  traceback and exit status 1 before any report.
\<close>

theorem failed_git_command_continues:
  assumes "is_repository env" and "since_date env (arg_days args) = Some since"
      and "git_log env = CalledProcessError"
  shows "main env args =
     (case export_requested args of
        None \<Rightarrow>
          \<lparr>console_output = [Analyzing, LookingAt (arg_days args), GitCommandError,
              Printed (Message ''No commits found in the specified time range.'')],
           exit_code = 0, written = None\<rparr>
      | Some path \<Rightarrow>
          if can_open env path
          then \<lparr>console_output = [Analyzing, LookingAt (arg_days args), GitCommandError,
                  Printed (Message ''No commits found in the specified time range.''),
                  ExportedTo path],
                exit_code = 0,
                written = Some (path, empty_document (arg_repo_path args) (arg_days args)
                                        (arg_author args))\<rparr>
          else \<lparr>console_output = [Analyzing, LookingAt (arg_days args), GitCommandError,
                  Printed (Message ''No commits found in the specified time range.''),
                  Traceback OSError],
                exit_code = 1, written = None\<rparr>) \<and>
   main (env\<lparr>git_log := SpawnError\<rparr>) args =
     \<lparr>console_output = [Analyzing, LookingAt (arg_days args), Traceback OSError],
      exit_code = 1, written = None\<rparr>"
proof -
  have f: "fetch_commits env (arg_days args) = ([GitCommandError], Inr [])"
    using assms(2,3) by (rule fetch_commits_failed)
  have sp: "fetch_commits (env\<lparr>git_log := SpawnError\<rparr>) (arg_days args) = ([], Inl OSError)"
    by (rule fetch_commits_not_started[where since = since]) (simp_all add: assms(2))
  have m1: "main env args =
     (case export_requested args of
        None \<Rightarrow>
          \<lparr>console_output = [Analyzing, LookingAt (arg_days args), GitCommandError,
              Printed (Message ''No commits found in the specified time range.'')],
           exit_code = 0, written = None\<rparr>
      | Some path \<Rightarrow>
          if can_open env path
          then \<lparr>console_output = [Analyzing, LookingAt (arg_days args), GitCommandError,
                  Printed (Message ''No commits found in the specified time range.''),
                  ExportedTo path],
                exit_code = 0,
                written = Some (path, empty_document (arg_repo_path args) (arg_days args)
                                        (arg_author args))\<rparr>
          else \<lparr>console_output = [Analyzing, LookingAt (arg_days args), GitCommandError,
                  Printed (Message ''No commits found in the specified time range.''),
                  Traceback OSError],
                exit_code = 1, written = None\<rparr>)"
    using assms(1)
    by (simp add: main_def f generate_report_empty export_json_no_commits uncaught_def
        split: option.splits)
  have m2: "main (env\<lparr>git_log := SpawnError\<rparr>) args =
     \<lparr>console_output = [Analyzing, LookingAt (arg_days args), Traceback OSError],
      exit_code = 1, written = None\<rparr>"
    using assms(1) by (simp add: main_def sp uncaught_def)
  from m1 m2 show ?thesis by (rule conjI)
qed

theorem failed_git_command_continues_witness:
  "is_repository sample_env \<and> since_date sample_env (arg_days sample_args) = Some ''2024-01-01'' \<and>
   git_log sample_env = CalledProcessError \<and> export_requested sample_args = None \<and>
   main sample_env sample_args =
     \<lparr>console_output = [Analyzing, LookingAt 30, GitCommandError,
              Printed (Message ''No commits found in the specified time range.'')],
      exit_code = 0, written = None\<rparr> \<and>
   main (sample_env\<lparr>git_log := SpawnError\<rparr>) sample_args =
     \<lparr>console_output = [Analyzing, LookingAt 30, Traceback OSError],
      exit_code = 1, written = None\<rparr>"
proof -
  have h1: "is_repository sample_env" by (simp add: sample_env_def)
  have h2: "since_date sample_env (arg_days sample_args) = Some ''2024-01-01''"
    by (simp add: sample_env_def)
  have h3: "git_log sample_env = CalledProcessError" by (simp add: sample_env_def)
  have e: "export_requested sample_args = None"
    by (simp add: export_requested_def sample_args_def)
  have d: "arg_days sample_args = 30" by (simp add: sample_args_def)
  from failed_git_command_continues[OF h1 h2 h3]
  have m: "main sample_env sample_args =
     \<lparr>console_output = [Analyzing, LookingAt 30, GitCommandError,
              Printed (Message ''No commits found in the specified time range.'')],
      exit_code = 0, written = None\<rparr>"
    and s: "main (sample_env\<lparr>git_log := SpawnError\<rparr>) sample_args =
     \<lparr>console_output = [Analyzing, LookingAt 30, Traceback OSError],
      exit_code = 1, written = None\<rparr>"
    by (simp_all add: e d)
  from h1 h2 h3 e m s show ?thesis by blast
qed

text \<open>The claim as stated fails: after a git command that exited with an error the run
  ends with exit status 0 and has printed a report.\<close>

theorem failed_git_command_counterexample:
  "git_log sample_env = CalledProcessError \<and>
   exit_code (main sample_env sample_args) = 0 \<and>
   Printed (Message ''No commits found in the specified time range.'') \<in>
     set (console_output (main sample_env sample_args))"
  by (simp add: main_def sample_env_def sample_args_def fetch_commits_def run_git_command_def
      parse_log_empty generate_report_empty export_requested_def)

section \<open>Commit analyzer: the aggregation loops\<close>

lemma message_step_apply:
  "message_step c (ls, k, p) =
     (ls @ [length (c_message c)],
      (if match_group1 (c_message c) \<noteq> None then Suc k else k),
      (case match_group1 (c_message c) of None \<Rightarrow> p | Some t \<Rightarrow> incr t p))"
  by (cases "match_group1 (c_message c)") (simp_all add: message_step_def)

lemma fold_message_step:
  "fold message_step cs (ls, k, p) =
     (ls @ map (\<lambda>c. length (c_message c)) cs,
      k + length (filter (\<lambda>c. match_group1 (c_message c) \<noteq> None) cs),
      fold (\<lambda>c q. case match_group1 (c_message c) of None \<Rightarrow> q | Some t \<Rightarrow> incr t q) cs p)"
proof (induction cs arbitrary: ls k p)
  case Nil show ?case by simp
next
  case (Cons c cs)
  show ?case by (simp add: message_step_apply Cons)
qed

lemma change_step_apply:
  "change_step c (a, d, counts) =
     (a + c_additions c, d + c_deletions c, fold file_step (c_files c) counts)"
  by (simp add: change_step_def)

lemma fold_change_step:
  "fold change_step cs (a, d, counts) =
     (a + sum_list (map c_additions cs), d + sum_list (map c_deletions cs),
      fold (\<lambda>c. fold file_step (c_files c)) cs counts)"
proof (induction cs arbitrary: a d counts)
  case Nil show ?case by simp
next
  case (Cons c cs)
  show ?case by (simp add: change_step_apply Cons add.assoc)
qed

section \<open>Commit analyzer: the productivity score\<close>

lemma conventional_pct_in:
  assumes "cs \<noteq> []"
  shows "float_in (conventional_pct cs) 0 100"
proof -
  have le: "conventional_count cs \<le> length cs" by (simp add: conventional_count_def)
  have pos: "(0::rat) < of_nat (length cs)" using assms by simp
  have "(of_nat (conventional_count cs) :: rat) \<le> of_nat (length cs)"
    using le by (simp only: of_nat_le_iff)
  then have hi: "(of_nat (conventional_count cs) :: rat) / of_nat (length cs) \<le> 1"
    using pos by (simp add: divide_le_eq)
  have lo: "(0::rat) \<le> of_nat (conventional_count cs) / of_nat (length cs)" by simp
  have q: "float_in (fl (of_nat (conventional_count cs) / of_nat (length cs))) 0 1"
    using lo hi by (rule fl_in) (simp_all add: nearest_consts)
  have h: "float_in (Float 100) 0 100" by (simp add: float_in_def)
  show ?thesis
    unfolding conventional_pct_def
    using q h by (rule fmul_in) (simp_all add: nearest_consts)
qed

lemma message_score_in:
  assumes "cs \<noteq> []"
  shows "float_in (fmul (conventional_pct cs) (fl (3 / 10))) 0 30"
proof -
  have l: "float_in (fl (3 / 10)) 0 (5404319552844595 / 18014398509481984)"
    by (simp add: fl_literal_3_10 float_in_def)
  show ?thesis
    using conventional_pct_in[OF assms] l by (rule fmul_in) (simp_all add: nearest_consts)
qed

lemma commit_score_in:
  assumes "0 < days"
  shows "float_in (pymin (fmul (commits_per_day days cs) (Float 10)) (Float 40)) 0 40"
proof -
  have "(0::rat) \<le> of_nat (length cs) / of_int days" using assms by simp
  from fl_capped[OF this] show ?thesis
  proof
    assume "fl (of_nat (length cs) / of_int days) = PosInf"
    then show ?thesis by (simp add: commits_per_day_def float_in_def pymin_def)
  next
    assume "\<exists>q. fl (of_nat (length cs) / of_int days) = Float q \<and> 0 \<le> q"
    then obtain q where q: "fl (of_nat (length cs) / of_int days) = Float q" "0 \<le> q" by blast
    have "0 \<le> q * 10" using q(2) by simp
    from fl_capped[OF this] have "fl (q * 10) = PosInf \<or> (\<exists>p. fl (q * 10) = Float p \<and> 0 \<le> p)" .
    then have "float_in (pymin (fl (q * 10)) (Float 40)) 0 40" by (rule pymin_cap) simp
    then show ?thesis by (simp add: commits_per_day_def q(1))
  qed
qed

lemma change_score_in:
  assumes "0 \<le> sum_list (map c_additions cs)" and "avg_additions cs = Float a"
  shows "float_in (pymin (quotient (avg_additions cs) (Float 10)) (Float 30)) 0 30"
proof -
  have "(0::rat) \<le> of_int (sum_list (map c_additions cs)) / of_nat (length cs)"
    using assms(1) by simp
  then have "0 \<le> nearest (of_int (sum_list (map c_additions cs)) / of_nat (length cs))"
    by (rule nearest_nonneg)
  moreover have "fl (of_int (sum_list (map c_additions cs)) / of_nat (length cs)) = Float a"
    using assms(2) by (simp add: avg_additions_def)
  ultimately have a: "0 \<le> a"
    by (auto simp add: fl_def Let_def split: if_splits)
  then have "0 \<le> a / 10" by simp
  from fl_capped[OF this] have "float_in (pymin (fl (a / 10)) (Float 30)) 0 30"
    by (rule pymin_cap) simp
  then show ?thesis by (simp add: assms(2))
qed

lemma decimal_in:
  assumes "0 \<le> x" "x \<le> 100"
  shows "0 \<le> decimal 2 x \<and> decimal 2 x \<le> 100"
proof -
  have "round_half_even (of_int 0) \<le> round_half_even (x * 100)"
    using assms(1) by (intro round_half_even_mono) simp
  then have lo: "0 \<le> round_half_even (x * 100)" by simp
  have "round_half_even (x * 100) \<le> round_half_even (of_int 10000)"
    using assms(2) by (intro round_half_even_mono) simp
  then have hi: "round_half_even (x * 100) \<le> 10000" by (simp only: round_half_even_of_int)
  have "(of_int (round_half_even (x * 100)) :: rat) \<le> of_int 10000"
    using hi by (simp only: of_int_le_iff)
  then have "(of_int (round_half_even (x * 100)) :: rat) / 100 \<le> 100" by simp
  moreover have "(0::rat) \<le> of_int (round_half_even (x * 100)) / 100" using lo by simp
  ultimately show ?thesis by (simp add: decimal_def)
qed

lemma spec_score_in:
  assumes "cs \<noteq> []" "0 < days" "0 \<le> sum_list (map c_additions cs)" "is_finite (avg_additions cs)"
  shows "\<exists>x. fadd (fadd (pymin (fmul (commits_per_day days cs) (Float 10)) (Float 40))
                      (fmul (conventional_pct cs) (fl (3 / 10))))
                (pymin (quotient (avg_additions cs) (Float 10)) (Float 30)) = Float x \<and>
            float_in (fl (decimal 2 x)) 0 100 \<and> spec_score days cs = fl (decimal 2 x)"
proof -
  from assms(4) obtain a where a: "avg_additions cs = Float a" by (rule is_finiteE)
  let ?c = "pymin (fmul (commits_per_day days cs) (Float 10)) (Float 40)"
  let ?m = "fmul (conventional_pct cs) (fl (3 / 10))"
  let ?q = "pymin (quotient (avg_additions cs) (Float 10)) (Float 30)"
  have c: "float_in ?c 0 40" using assms(2) by (rule commit_score_in)
  have m: "float_in ?m 0 30" using assms(1) by (rule message_score_in)
  have q: "float_in ?q 0 30" using assms(3) a by (rule change_score_in)
  have "float_in (fadd ?c ?m) (0 + 0) (40 + 30)"
    using c m by (rule fadd_in) (simp_all add: nearest_consts)
  then have "float_in (fadd (fadd ?c ?m) ?q) (0 + 0 + 0) (40 + 30 + 30)"
    using q by (rule fadd_in) (simp_all add: nearest_consts)
  then obtain x where x: "fadd (fadd ?c ?m) ?q = Float x" "0 \<le> x" "x \<le> 100"
    by (rule float_inE) simp
  from decimal_in[OF x(2,3)] have "float_in (fl (decimal 2 x)) 0 100"
    by (intro fl_in) (simp_all add: nearest_consts)
  moreover have "spec_score days cs = fl (decimal 2 x)"
    by (simp add: spec_score_def x(1))
  ultimately show ?thesis using x(1) by blast
qed

lemma analyze_commit_messages_value:
  assumes "cs \<noteq> []" and "avg_length cs = Float l"
  shows "\<exists>m. analyze_commit_messages cs = Inr m \<and> conventional_percentage m = conventional_pct cs"
proof -
  have le: "conventional_count cs \<le> length cs" by (simp add: conventional_count_def)
  have pos: "(0::rat) < of_nat (length cs)" using assms(1) by simp
  have "(of_nat (conventional_count cs) :: rat) \<le> of_nat (length cs)"
    using le by (simp only: of_nat_le_iff)
  then have hi: "(of_nat (conventional_count cs) :: rat) / of_nat (length cs) \<le> 1"
    using pos by (simp add: divide_le_eq)
  have lo: "(0::rat) \<le> of_nat (conventional_count cs) / of_nat (length cs)" by simp
  have "float_in (fl (of_nat (conventional_count cs) / of_nat (length cs))) 0 1"
    using lo hi by (rule fl_in) (simp_all add: nearest_consts)
  then obtain q where q: "fl (of_nat (conventional_count cs) / of_nat (length cs)) = Float q"
    by (rule float_inE)
  have n0: "int (length cs) \<noteq> 0" using assms(1) by simp
  have d1: "int_truediv (int (sum_list (map (\<lambda>c. length (c_message c)) cs))) (int (length cs)) =
      Inr (Float l)"
    using n0 by (rule int_truediv_finite) (use assms(2) in \<open>simp add: avg_length_def\<close>)
  have d2: "int_truediv (int (conventional_count cs)) (int (length cs)) = Inr (Float q)"
    using n0 by (rule int_truediv_finite) (use q in simp)
  obtain pats where fm: "fold message_step cs ([], 0, map (\<lambda>t. (t, 0)) commit_type_tags) =
      (map (\<lambda>c. length (c_message c)) cs, conventional_count cs, pats)"
    by (simp add: fold_message_step conventional_count_def)
  show ?thesis
    unfolding analyze_commit_messages_def fm
    using assms(1) by (simp add: d1 d2 conventional_pct_def q)
qed

lemma analyze_file_changes_value:
  assumes "cs \<noteq> []" and "avg_additions cs = Float a" and "avg_deletions cs = Float d"
  shows "\<exists>f. analyze_file_changes cs = Inr f \<and> avg_additions_per_commit f = Float a"
proof -
  have n0: "int (length cs) \<noteq> 0" using assms(1) by simp
  have d1: "int_truediv (sum_list (map c_additions cs)) (int (length cs)) = Inr (Float a)"
    using n0 by (rule int_truediv_finite) (use assms(2) in \<open>simp add: avg_additions_def\<close>)
  have d2: "int_truediv (sum_list (map c_deletions cs)) (int (length cs)) = Inr (Float d)"
    using n0 by (rule int_truediv_finite) (use assms(3) in \<open>simp add: avg_deletions_def\<close>)
  show ?thesis
    using assms(1)
    by (simp add: analyze_file_changes_def fold_change_step d1 d2 split: prod.splits)
qed

lemma get_productivity_score_value:
  assumes "cs \<noteq> []" "0 < days" "0 \<le> sum_list (map c_additions cs)" "averages_finite days cs"
  shows "\<exists>s. get_productivity_score days cs = Inr (Float s) \<and> spec_score days cs = Float s \<and>
           0 \<le> s \<and> s \<le> 100"
proof -
  from assms(4) obtain p l a d where
    p: "commits_per_day days cs = Float p" and l: "avg_length cs = Float l" and
    a: "avg_additions cs = Float a" and d: "avg_deletions cs = Float d"
    unfolding averages_finite_def by (auto elim!: is_finiteE)
  have fin: "is_finite (avg_additions cs)" by (simp add: a is_finite_def)
  obtain m where m: "analyze_commit_messages cs = Inr m"
      "conventional_percentage m = conventional_pct cs"
    using analyze_commit_messages_value[OF assms(1) l] by blast
  obtain f where f: "analyze_file_changes cs = Inr f" "avg_additions_per_commit f = Float a"
    using analyze_file_changes_value[OF assms(1) a d] by blast
  have dd: "int_truediv (int (length cs)) days = Inr (Float p)"
    by (rule int_truediv_finite) (use assms(2) p in \<open>simp_all add: commits_per_day_def\<close>)
  obtain x where x:
    "fadd (fadd (pymin (fmul (commits_per_day days cs) (Float 10)) (Float 40))
                (fmul (conventional_pct cs) (fl (3 / 10))))
          (pymin (quotient (avg_additions cs) (Float 10)) (Float 30)) = Float x"
    "float_in (fl (decimal 2 x)) 0 100" "spec_score days cs = fl (decimal 2 x)"
    using spec_score_in[OF assms(1-3) fin] by blast
  from x(2) obtain s where s: "fl (decimal 2 x) = Float s" "0 \<le> s" "s \<le> 100"
    by (rule float_inE)
  have "get_productivity_score days cs = Inr (Float s)"
    using assms(1) x(1)
    by (simp add: get_productivity_score_def dd m f fdiv_def s(1) p a)
  with s x(3) show ?thesis by simp
qed

text \<open>
  Claim C2, as the code has it. For a window of at least one day and a commit list whose
  added lines do not sum to a negative number and whose averages are within the floats,
  the score is returned; for a list with commits it is the sum, rounded to two decimals,
  of \<open>min (commits / days * 10, 40)\<close>, \<open>percentage * 0.3\<close> and
  \<open>min (average additions / 10, 30)\<close>, every operation being the one on floats; it lies
  between 0 and 100; and it is 0 for the list without commits (that for every window).
\<close>

theorem productivity_score_formula:
  assumes "0 < days" and "0 \<le> sum_list (map c_additions cs)" and "averages_finite days cs"
  shows "\<exists>s. get_productivity_score days cs = Inr (Float s) \<and>
           Float s = (if cs = [] then 0 else spec_score days cs) \<and>
           0 \<le> s \<and> s \<le> 100 \<and>
           get_productivity_score any_days [] = Inr 0"
proof (cases "cs = []")
  case True
  then show ?thesis by (simp add: get_productivity_score_def zero_pyfloat_def)
next
  case False
  obtain s where s: "get_productivity_score days cs = Inr (Float s)"
      "spec_score days cs = Float s" "0 \<le> s" "s \<le> 100"
    using get_productivity_score_value[OF False assms] by blast
  have e: "get_productivity_score any_days [] = Inr 0"
    by (simp add: get_productivity_score_def)
  from False s e show ?thesis by simp
qed

theorem productivity_score_formula_witness:
  "(0::int) < 1 \<and>
   0 \<le> sum_list (map c_additions
          [sample_commit ''a'' 7 0, sample_commit ''b'' 0 0, sample_commit ''c'' 0 0,
           sample_commit ''d'' 0 0]) \<and>
   averages_finite 1
     [sample_commit ''a'' 7 0, sample_commit ''b'' 0 0, sample_commit ''c'' 0 0,
      sample_commit ''d'' 0 0] \<and>
   get_productivity_score 1
     [sample_commit ''a'' 7 0, sample_commit ''b'' 0 0, sample_commit ''c'' 0 0,
      sample_commit ''d'' 0 0] = Inr (fl (4017 / 100)) \<and>
   spec_score 1
     [sample_commit ''a'' 7 0, sample_commit ''b'' 0 0, sample_commit ''c'' 0 0,
      sample_commit ''d'' 0 0] = fl (4017 / 100)"
proof -
  let ?cs = "[sample_commit ''a'' 7 0, sample_commit ''b'' 0 0, sample_commit ''c'' 0 0,
      sample_commit ''d'' 0 0]"
  have h1: "(0::int) < 1" by simp
  have h2: "0 \<le> sum_list (map c_additions ?cs)" by (simp add: sample_commit_def)
  have h3: "averages_finite 1 ?cs" by code_simp
  have v: "get_productivity_score 1 ?cs = Inr (fl (4017 / 100))" by code_simp
  obtain s where s: "get_productivity_score 1 ?cs = Inr (Float s)"
      "Float s = (if ?cs = [] then 0 else spec_score 1 ?cs)"
    using productivity_score_formula[OF h1 h2 h3] by blast
  from s(1) v have "fl (4017 / 100) = Float s" by simp
  with s(2) have "spec_score 1 ?cs = fl (4017 / 100)" by simp
  with h1 h2 h3 v show ?thesis by blast
qed

text \<open>The claim as stated fails for a window that is not positive: with a window of
  \<open>-1\<close> days one commit scores \<open>-10\<close>, and with a window of 0 days the score is not
  computed at all.\<close>

theorem productivity_score_counterexample:
  "get_productivity_score (- 1) [sample_commit ''random text'' 0 0] = Inr (Float (- 10)) \<and>
   get_productivity_score 0 [sample_commit ''random text'' 0 0] = Inl ZeroDivisionError"
  by code_simp

section \<open>Commit analyzer: stat lines\<close>

lemma parse_stat_fields:
  assumes "split_chr CHR 0x09 line = [a, d, f]"
  shows "parse_stat line cur =
     (case stat_value a of
        None \<Rightarrow> cur
      | Some x \<Rightarrow>
          (case stat_value d of
             None \<Rightarrow> cur
           | Some y \<Rightarrow>
               cur\<lparr>c_additions := c_additions cur + x, c_deletions := c_deletions cur + y,
                   c_files := c_files cur @ [\<lparr>f_name = f, f_additions = x, f_deletions = y\<rparr>]\<rparr>))"
  by (simp add: parse_stat_def assms)

lemma fetch_step_stat:
  assumes "\<not> is_commit_line line" and "strip line \<noteq> []"
  shows "fetch_step fromiso line (Some cur, commits) = Inr (Some (parse_stat line cur), commits)"
  using assms by (simp add: fetch_step_def)

lemma fetch_step_no_abort:
  assumes "\<not> is_commit_line line"
  shows "\<exists>st'. fetch_step fromiso line st = Inr st'"
  using assms by (simp add: fetch_step_def)

text \<open>
  Claim C7, as the code has it. On a line that is not taken for a commit line (it does
  not split into exactly four fields at the bars), is not blank and has three
  tab-separated fields, each of the two count fields is converted on its own: the placeholder \<^verbatim>\<open>-\<close> counts as 0 for
  its field, any other field goes through \<^verbatim>\<open>int\<close>. When both fields are the
  placeholder the commit's additions and deletions stay as they were and the file is
  recorded with 0 and 0; when both convert, the commit gains both values and the file is
  recorded; when one of them does not convert, the line changes nothing, and parsing goes
  on.
\<close>

theorem stat_line_fields:
  assumes "\<not> is_commit_line line" and "strip line \<noteq> []"
      and "split_chr CHR 0x09 line = [a, d, f]"
  shows "stat_value ''-'' = Some 0 \<and>
         (a = ''-'' \<and> d = ''-'' \<longrightarrow>
            fetch_step fromiso line (Some cur, commits) =
              Inr (Some (cur\<lparr>c_files := c_files cur @
                          [\<lparr>f_name = f, f_additions = 0, f_deletions = 0\<rparr>]\<rparr>), commits)) \<and>
         (\<forall>x y. stat_value a = Some x \<and> stat_value d = Some y \<longrightarrow>
            fetch_step fromiso line (Some cur, commits) =
              Inr (Some (cur\<lparr>c_additions := c_additions cur + x,
                              c_deletions := c_deletions cur + y,
                              c_files := c_files cur @
                                [\<lparr>f_name = f, f_additions = x, f_deletions = y\<rparr>]\<rparr>), commits)) \<and>
         (stat_value a = None \<or> stat_value d = None \<longrightarrow>
            fetch_step fromiso line (Some cur, commits) = Inr (Some cur, commits))"
proof -
  have s: "fetch_step fromiso line (Some cur, commits) = Inr (Some (parse_stat line cur), commits)"
    using assms(1,2) by (rule fetch_step_stat)
  have p: "stat_value ''-'' = Some 0" by (simp add: stat_value_def)
  show ?thesis
    unfolding s parse_stat_fields[OF assms(3)]
    by (auto simp add: p split: option.splits)
qed


theorem stat_line_fields_witness:
  "\<not> is_commit_line (stat_line ''-'' ''-'' ''logo.png'') \<and>
   strip (stat_line ''-'' ''-'' ''logo.png'') \<noteq> [] \<and>
   split_chr CHR 0x09 (stat_line ''-'' ''-'' ''logo.png'') = [''-'', ''-'', ''logo.png''] \<and>
   fetch_step sample_fromiso (stat_line ''-'' ''-'' ''logo.png'')
       (Some (sample_commit ''feat: a'' 0 0), []) =
     Inr (Some ((sample_commit ''feat: a'' 0 0)\<lparr>c_files := c_files (sample_commit ''feat: a'' 0 0) @
             [\<lparr>f_name = ''logo.png'', f_additions = 0, f_deletions = 0\<rparr>]\<rparr>), [])"
proof -
  have h1: "\<not> is_commit_line (stat_line ''-'' ''-'' ''logo.png'')" by code_simp
  have h2: "strip (stat_line ''-'' ''-'' ''logo.png'') \<noteq> []" by code_simp
  have h3: "split_chr CHR 0x09 (stat_line ''-'' ''-'' ''logo.png'') = [''-'', ''-'', ''logo.png'']"
    by code_simp
  show ?thesis
    using h1 h2 h3 stat_line_fields[OF h1 h2 h3, of sample_fromiso "sample_commit ''feat: a'' 0 0" "[]"]
    by blast
qed

text \<open>The claim as stated fails. The stat line of a binary file named \<^verbatim>\<open>a|b|c|d.png\<close>
  splits into four fields at the bars and is taken for a commit line: its third field is
  no date, and parsing is aborted, so the file is not recorded. And where only one count
  field is the placeholder, as in \<^verbatim>\<open>-<TAB>5<TAB>logo.png\<close>, the other one still
  counts: the line adds 5 to the deletions.\<close>

theorem placeholder_stat_counterexample:
  "is_commit_line (stat_line ''-'' ''-'' ''a|b|c|d.png'') \<and>
   parse_log sample_fromiso (log_lines [sample_header, stat_line ''-'' ''-'' ''a|b|c|d.png'']) =
     Inl ValueError \<and>
   parse_log sample_fromiso (log_lines [sample_header, stat_line ''-'' ''5'' ''logo.png'']) =
     Inr [\<lparr>c_hash = ''0a1b2c'', c_author = ''Ann'',
           c_date = \<lparr>hour = 10, weekday = ''Monday'', ymd = ''2024-01-15''\<rparr>,
           c_message = ''feat: a'',
           c_files = [\<lparr>f_name = ''logo.png'', f_additions = 0, f_deletions = 5\<rparr>],
           c_additions = 0, c_deletions = 5\<rparr>]"
  by code_simp

section \<open>Commit analyzer: commit lines\<close>

lemma split_chr_nonempty: "split_chr c s \<noteq> []"
  by (induction s) (auto split: list.splits)

lemma length_split_chr: "length (split_chr c s) = Suc (count_list s c)"
proof (induction s)
  case Nil show ?case by simp
next
  case (Cons x xs)
  then show ?case
    using split_chr_nonempty[of c xs] by (auto split: list.splits)
qed

lemma hd_split_chr: "hd (split_chr c s) = takeWhile (\<lambda>x. x \<noteq> c) s"
proof (induction s)
  case Nil show ?case by simp
next
  case (Cons x xs)
  then show ?case
    using split_chr_nonempty[of c xs] by (auto split: list.splits)
qed

lemma is_commit_line_iff: "is_commit_line line \<longleftrightarrow> length (split_chr CHR ''|'' line) = 4"
proof
  assume "is_commit_line line"
  then show "length (split_chr CHR ''|'' line) = 4" by (simp add: is_commit_line_def)
next
  assume a: "length (split_chr CHR ''|'' line) = 4"
  then have "count_list line CHR ''|'' = 3" by (simp add: length_split_chr)
  then have "CHR ''|'' \<in> set line" by (metis count_list_0_iff zero_neq_numeral)
  with a show "is_commit_line line" by (simp add: is_commit_line_def)
qed

lemma digits_acc_chars:
  "digits_acc acc s = Some n \<Longrightarrow> x \<in> set s \<Longrightarrow> is_digit x \<or> x = CHR ''_''"
proof (induction acc s rule: digits_acc.induct)
  case (1 acc) then show ?case by simp
next
  case (2 acc c cs)
  then show ?case by (auto split: if_splits list.splits)
qed

lemma unsigned_int_chars:
  "unsigned_int s = Some n \<Longrightarrow> x \<in> set s \<Longrightarrow> is_digit x \<or> x = CHR ''_''"
  by (cases s) (auto simp add: unsigned_int_def split: if_splits dest: digits_acc_chars)

lemma set_dropWhile_cases: "x \<in> set s \<Longrightarrow> P x \<or> x \<in> set (dropWhile P s)"
  by (induction s) auto

lemma set_strip_by_cases: "x \<in> set s \<Longrightarrow> p x \<or> x \<in> set (strip_by p s)"
proof -
  assume "x \<in> set s"
  then have "p x \<or> x \<in> set (dropWhile p s)" by (rule set_dropWhile_cases)
  moreover have "x \<in> set (dropWhile p s) \<Longrightarrow> p x \<or> x \<in> set (strip_by p s)"
    using set_dropWhile_cases[of x "rev (dropWhile p s)" p]
    by (simp add: strip_by_def)
  ultimately show ?thesis by blast
qed

lemma py_int_strip_chars:
  assumes "py_int s = Some n" "x \<in> set (strip_by int_space s)"
  shows "is_digit x \<or> x = CHR ''_'' \<or> x = CHR ''-'' \<or> x = CHR ''+''"
proof (cases "strip_by int_space s")
  case Nil with assms show ?thesis by simp
next
  case (Cons c cs)
  show ?thesis
  proof (cases "c = CHR ''-'' \<or> c = CHR ''+''")
    case True
    with assms(1) Cons obtain m where "unsigned_int cs = Some m"
      by (auto simp add: py_int_def split: if_splits)
    with assms(2) Cons True show ?thesis
      using unsigned_int_chars[of cs m x] by auto
  next
    case False
    with assms(1) Cons obtain m where "unsigned_int (c # cs) = Some m"
      by (auto simp add: py_int_def split: if_splits)
    with assms(2) Cons show ?thesis
      using unsigned_int_chars[of "c # cs" m x] by auto
  qed
qed

lemma py_int_no_bar: "CHR ''|'' \<in> set s \<Longrightarrow> py_int s = None"
proof (rule ccontr)
  assume b: "CHR ''|'' \<in> set s" and "py_int s \<noteq> None"
  then obtain n where n: "py_int s = Some n" by auto
  have "\<not> int_space CHR ''|''" by (simp add: int_space_def)
  with set_strip_by_cases[OF b] have "CHR ''|'' \<in> set (strip_by int_space s)" by blast
  from py_int_strip_chars[OF n this] show False by (simp add: is_digit_def)
qed

lemma stat_value_no_bar: "CHR ''|'' \<in> set s \<Longrightarrow> stat_value s = None"
  by (auto simp add: stat_value_def py_int_no_bar)

lemma parse_stat_bar:
  assumes "CHR ''|'' \<in> set (takeWhile (\<lambda>x. x \<noteq> CHR 0x09) line)"
  shows "parse_stat line cur = cur"
proof (cases "\<exists>a d f. split_chr CHR 0x09 line = [a, d, f]")
  case True
  then obtain a d f where s: "split_chr CHR 0x09 line = [a, d, f]" by blast
  then have "a = hd (split_chr CHR 0x09 line)" by simp
  then have "a = takeWhile (\<lambda>x. x \<noteq> CHR 0x09) line" by (simp add: hd_split_chr)
  with assms have "stat_value a = None" by (simp add: stat_value_no_bar)
  then show ?thesis by (simp add: parse_stat_def s)
next
  case False
  then show ?thesis
    by (auto simp add: parse_stat_def split: list.splits)
qed

lemma fetch_step_bar:
  assumes "\<not> is_commit_line line"
      and "CHR ''|'' \<in> set (takeWhile (\<lambda>x. x \<noteq> CHR 0x09) line)"
  shows "fetch_step fromiso line st = Inr st"
proof (cases st)
  case (Pair cur commits)
  show ?thesis
    using assms(1) parse_stat_bar[OF assms(2)]
    by (cases cur) (simp_all add: fetch_step_def Pair)
qed

lemma fetch_lines_append:
  "fetch_lines fromiso (xs @ ys) st =
     (case fetch_lines fromiso xs st of Inl e \<Rightarrow> Inl e | Inr st' \<Rightarrow> fetch_lines fromiso ys st')"
  by (induction xs arbitrary: st) (auto split: sum.splits)

lemma fetch_lines_skip:
  assumes "\<And>st. fetch_step fromiso l st = Inr st"
  shows "fetch_lines fromiso (before @ l # after) st0 = fetch_lines fromiso (before @ after) st0"
  by (simp add: fetch_lines_append assms split: sum.splits)


lemma commit_text_bars:
  assumes "CHR ''|'' \<in> set subject"
  shows "\<not> is_commit_line (commit_text h a d subject)"
proof -
  have "count_list subject CHR ''|'' \<noteq> 0" using assms by (simp add: count_list_0_iff)
  then have "0 < count_list subject CHR ''|''" by simp
  then have "4 \<le> count_list (commit_text h a d subject) CHR ''|''"
    by (simp add: commit_text_def)
  then have "length (split_chr CHR ''|'' (commit_text h a d subject)) \<noteq> 4"
    by (simp add: length_split_chr)
  then show ?thesis by (simp add: is_commit_line_def)
qed

lemma commit_text_first_field:
  assumes "CHR 0x09 \<notin> set h"
  shows "CHR ''|'' \<in> set (takeWhile (\<lambda>x. x \<noteq> CHR 0x09) (commit_text h a d subject))"
proof -
  have "takeWhile (\<lambda>x. x \<noteq> CHR 0x09) (h @ ''|'' @ a @ ''|'' @ d @ ''|'' @ subject) =
          h @ takeWhile (\<lambda>x. x \<noteq> CHR 0x09) (''|'' @ a @ ''|'' @ d @ ''|'' @ subject)"
    using assms by (intro takeWhile_append2) auto
  then show ?thesis by (simp add: commit_text_def)
qed

text \<open>
  Claim C10. A line is taken for a commit line exactly when splitting it at \<^verbatim>\<open>|\<close>
  gives four fields. Hence the line of a commit whose subject contains \<^verbatim>\<open>|\<close> (its
  hash holding no tab) is not a commit line; it goes to the stat branch, where it changes
  nothing, so that the log is parsed as if the line were absent: the stat lines after it
  are added to the commit before it. A line that is not a commit line changes nothing
  while no commit has been seen.
\<close>

theorem commit_line_detection:
  "(is_commit_line line \<longleftrightarrow> length (split_chr CHR ''|'' line) = 4) \<and>
   (CHR 0x09 \<notin> set h \<and> CHR ''|'' \<in> set subject \<longrightarrow>
      \<not> is_commit_line (commit_text h a d subject) \<and>
      fetch_step fromiso (commit_text h a d subject) st = Inr st \<and>
      fetch_lines fromiso (before @ commit_text h a d subject # after) st0 =
        fetch_lines fromiso (before @ after) st0) \<and>
   (\<not> is_commit_line s \<longrightarrow> fetch_step fromiso s (None, commits) = Inr (None, commits))"
proof (intro conjI impI)
  show "is_commit_line line \<longleftrightarrow> length (split_chr CHR ''|'' line) = 4"
    by (rule is_commit_line_iff)
next
  assume h: "CHR 0x09 \<notin> set h \<and> CHR ''|'' \<in> set subject"
  then show n: "\<not> is_commit_line (commit_text h a d subject)"
    by (simp add: commit_text_bars)
  have f: "CHR ''|'' \<in> set (takeWhile (\<lambda>x. x \<noteq> CHR 0x09) (commit_text h a d subject))"
    using h by (simp add: commit_text_first_field)
  show "fetch_step fromiso (commit_text h a d subject) st = Inr st"
    using n f by (rule fetch_step_bar)
  show "fetch_lines fromiso (before @ commit_text h a d subject # after) st0 =
        fetch_lines fromiso (before @ after) st0"
    using fetch_step_bar[OF n f] by (rule fetch_lines_skip)
next
  assume "\<not> is_commit_line s"
  then show "fetch_step fromiso s (None, commits) = Inr (None, commits)"
    by (simp add: fetch_step_def)
qed


theorem commit_line_detection_witness:
  "CHR 0x09 \<notin> set ''9f8e7d'' \<and> CHR ''|'' \<in> set ''fix: a|b'' \<and>
   \<not> is_commit_line bar_subject_line \<and>
   fetch_step sample_fromiso bar_subject_line (Some (sample_commit ''feat: a'' 10 2), []) =
     Inr (Some (sample_commit ''feat: a'' 10 2), []) \<and>
   fetch_step sample_fromiso (stat_line ''3'' ''1'' ''b.py'') (None, []) = Inr (None, []) \<and>
   parse_log sample_fromiso
     (log_lines [sample_header, stat_line ''10'' ''2'' ''a.py'', bar_subject_line,
                 stat_line ''3'' ''1'' ''b.py'']) =
     Inr [\<lparr>c_hash = ''0a1b2c'', c_author = ''Ann'',
           c_date = \<lparr>hour = 10, weekday = ''Monday'', ymd = ''2024-01-15''\<rparr>,
           c_message = ''feat: a'',
           c_files = [\<lparr>f_name = ''a.py'', f_additions = 10, f_deletions = 2\<rparr>,
                      \<lparr>f_name = ''b.py'', f_additions = 3, f_deletions = 1\<rparr>],
           c_additions = 13, c_deletions = 3\<rparr>] \<and>
   parse_log sample_fromiso (log_lines [bar_subject_line, stat_line ''3'' ''1'' ''b.py'']) = Inr []"
proof -
  have h1: "CHR 0x09 \<notin> set ''9f8e7d''" by simp
  have h2: "CHR ''|'' \<in> set ''fix: a|b''" by simp
  have h3: "\<not> is_commit_line (stat_line ''3'' ''1'' ''b.py'')" by code_simp
  have e1: "parse_log sample_fromiso
     (log_lines [sample_header, stat_line ''10'' ''2'' ''a.py'', bar_subject_line,
                 stat_line ''3'' ''1'' ''b.py'']) =
     Inr [\<lparr>c_hash = ''0a1b2c'', c_author = ''Ann'',
           c_date = \<lparr>hour = 10, weekday = ''Monday'', ymd = ''2024-01-15''\<rparr>,
           c_message = ''feat: a'',
           c_files = [\<lparr>f_name = ''a.py'', f_additions = 10, f_deletions = 2\<rparr>,
                      \<lparr>f_name = ''b.py'', f_additions = 3, f_deletions = 1\<rparr>],
           c_additions = 13, c_deletions = 3\<rparr>]"
    by code_simp
  have e2: "parse_log sample_fromiso (log_lines [bar_subject_line, stat_line ''3'' ''1'' ''b.py'']) = Inr []"
    by code_simp
  show ?thesis
    unfolding bar_subject_line_def[symmetric]
    using h1 h2 h3 e1 e2
      commit_line_detection[of "[]" "''9f8e7d''" "''fix: a|b''" "''Bob''" "''2024-01-14 09:00:00 +0100''"
        sample_fromiso "(Some (sample_commit ''feat: a'' 10 2), [])" "[]" "[]" "(None, [])"
        "stat_line ''3'' ''1'' ''b.py''" "[]"]
    by (simp add: bar_subject_line_def)
qed

section \<open>Commit analyzer: conventional messages\<close>

lemma nil_in_lang_cat: "[] \<in> lang_cat A B \<longleftrightarrow> [] \<in> A \<and> [] \<in> B"
  by (auto simp add: lang_cat_def)

lemma nullable_lang: "nullable r \<longleftrightarrow> [] \<in> lang r"
  by (induction r) (auto simp add: nil_in_lang_cat intro: lang_rep.rep_nil)

lemma cons_in_lang_cat:
  "x # w \<in> lang_cat A B \<longleftrightarrow>
     (\<exists>u v. w = u @ v \<and> x # u \<in> A \<and> v \<in> B) \<or> ([] \<in> A \<and> x # w \<in> B)"
proof
  assume "x # w \<in> lang_cat A B"
  then obtain u v where uv: "x # w = u @ v" "u \<in> A" "v \<in> B"
    by (auto simp add: lang_cat_def)
  show "(\<exists>u v. w = u @ v \<and> x # u \<in> A \<and> v \<in> B) \<or> ([] \<in> A \<and> x # w \<in> B)"
  proof (cases u)
    case Nil with uv show ?thesis by simp
  next
    case (Cons y ys) with uv show ?thesis by auto
  qed
next
  assume "(\<exists>u v. w = u @ v \<and> x # u \<in> A \<and> v \<in> B) \<or> ([] \<in> A \<and> x # w \<in> B)"
  then show "x # w \<in> lang_cat A B"
  proof
    assume "\<exists>u v. w = u @ v \<and> x # u \<in> A \<and> v \<in> B"
    then obtain u v where "w = u @ v" "x # u \<in> A" "v \<in> B" by blast
    then have "(x # u) @ v \<in> lang_cat A B" unfolding lang_cat_def by blast
    with \<open>w = u @ v\<close> show ?thesis by simp
  next
    assume "[] \<in> A \<and> x # w \<in> B"
    then have "[] @ (x # w) \<in> lang_cat A B" unfolding lang_cat_def by blast
    then show ?thesis by simp
  qed
qed

lemma cons_in_lang_rep:
  "x # w \<in> lang_rep A \<longleftrightarrow> (\<exists>u v. w = u @ v \<and> x # u \<in> A \<and> v \<in> lang_rep A)"
proof
  assume "x # w \<in> lang_rep A"
  then show "\<exists>u v. w = u @ v \<and> x # u \<in> A \<and> v \<in> lang_rep A"
  proof (induction "x # w" arbitrary: w rule: lang_rep.induct)
    case (rep_more u v)
    show ?case
    proof (cases u)
      case Nil
      with rep_more show ?thesis by simp
    next
      case (Cons y ys)
      with rep_more(1,2,4) show ?thesis by auto
    qed
  qed
next
  assume "\<exists>u v. w = u @ v \<and> x # u \<in> A \<and> v \<in> lang_rep A"
  then obtain u v where "w = u @ v" "x # u \<in> A" "v \<in> lang_rep A" by blast
  then have "(x # u) @ v \<in> lang_rep A" by (intro lang_rep.rep_more)
  with \<open>w = u @ v\<close> show "x # w \<in> lang_rep A" by simp
qed

lemma deriv_lang: "w \<in> lang (deriv x r) \<longleftrightarrow> x # w \<in> lang r"
proof (induction r arbitrary: w)
  case (Cat r s)
  show ?case
    by (auto simp add: cons_in_lang_cat Cat nullable_lang) (auto simp add: lang_cat_def Cat)
next
  case (Rep r)
  show ?case
    by (auto simp add: cons_in_lang_rep Rep) (auto simp add: lang_cat_def Rep)
qed auto

lemma prefix_match_lang: "prefix_match r s \<longleftrightarrow> (\<exists>u v. s = u @ v \<and> u \<in> lang r)"
proof (induction s arbitrary: r)
  case Nil
  show ?case by (simp add: nullable_lang)
next
  case (Cons c cs)
  note IH = Cons
  show ?case
  proof
    assume "prefix_match r (c # cs)"
    then consider "nullable r" | "prefix_match (deriv c r) cs" by auto
    then show "\<exists>u v. c # cs = u @ v \<and> u \<in> lang r"
    proof cases
      case 1
      then have "c # cs = [] @ (c # cs) \<and> [] \<in> lang r" by (simp add: nullable_lang)
      then show ?thesis by blast
    next
      case 2
      then obtain u v where "cs = u @ v" "u \<in> lang (deriv c r)" using IH by blast
      then have "c # cs = (c # u) @ v \<and> c # u \<in> lang r" by (simp add: deriv_lang)
      then show ?thesis by blast
    qed
  next
    assume "\<exists>u v. c # cs = u @ v \<and> u \<in> lang r"
    then obtain u v where uv: "c # cs = u @ v" "u \<in> lang r" by blast
    show "prefix_match r (c # cs)"
    proof (cases u)
      case Nil
      with uv have "nullable r" by (simp add: nullable_lang)
      then show ?thesis by simp
    next
      case (Cons y ys)
      with uv have "cs = ys @ v" "ys \<in> lang (deriv c r)" by (simp_all add: deriv_lang)
      then have "prefix_match (deriv c r) cs" using IH by blast
      then show ?thesis by simp
    qed
  qed
qed


lemma lang_lit_string: "lang (lit_string t) = {t}"
  by (induction t) (auto simp add: lang_cat_def)

lemma lang_rep_any: "lang_rep (lang AnyChar) = {w. CHR 0x0A \<notin> set w}"
proof (intro set_eqI iffI)
  fix w assume "w \<in> lang_rep (lang AnyChar)"
  then have "CHR 0x0A \<notin> set w"
    by (induction rule: lang_rep.induct) auto
  then show "w \<in> {w. CHR 0x0A \<notin> set w}" by simp
next
  fix w assume "w \<in> {w. CHR 0x0A \<notin> set w}"
  then have "CHR 0x0A \<notin> set w" by simp
  then show "w \<in> lang_rep (lang AnyChar)"
  proof (induction w)
    case Nil show ?case by (rule lang_rep.rep_nil)
  next
    case (Cons c cs)
    then have "[c] \<in> lang AnyChar" "cs \<in> lang_rep (lang AnyChar)" by auto
    then have "[c] @ cs \<in> lang_rep (lang AnyChar)" by (rule lang_rep.rep_more)
    then show ?case by simp
  qed
qed

lemma lang_one_or_more_any:
  "lang (OneOrMore AnyChar) = {w. w \<noteq> [] \<and> CHR 0x0A \<notin> set w}"
proof -
  have "lang (OneOrMore AnyChar) = lang_cat (lang AnyChar) (lang_rep (lang AnyChar))"
    by (simp only: OneOrMore_def lang.simps)
  also have "\<dots> = lang_cat (lang AnyChar) {w. CHR 0x0A \<notin> set w}"
    by (simp only: lang_rep_any)
  also have "\<dots> = {w. w \<noteq> [] \<and> CHR 0x0A \<notin> set w}"
  proof (intro set_eqI iffI)
    fix w assume "w \<in> lang_cat (lang AnyChar) {w. CHR 0x0A \<notin> set w}"
    then show "w \<in> {w. w \<noteq> [] \<and> CHR 0x0A \<notin> set w}" by (auto simp add: lang_cat_def)
  next
    fix w assume "w \<in> {w. w \<noteq> [] \<and> CHR 0x0A \<notin> set w}"
    then obtain c cs where w: "w = [c] @ cs" "c \<noteq> CHR 0x0A" "CHR 0x0A \<notin> set cs"
      by (cases w) auto
    then have "[c] \<in> lang AnyChar" "cs \<in> {w. CHR 0x0A \<notin> set w}" by simp_all
    then have "[c] @ cs \<in> lang_cat (lang AnyChar) {w. CHR 0x0A \<notin> set w}"
      unfolding lang_cat_def by blast
    with w(1) show "w \<in> lang_cat (lang AnyChar) {w. CHR 0x0A \<notin> set w}" by simp
  qed
  finally show ?thesis .
qed

lemma lang_scope_colon:
  "lang scope_colon =
     {'':''} \<union> {''('' @ scope @ ''):'' | scope. scope \<noteq> [] \<and> CHR 0x0A \<notin> set scope}"
proof -
  have "lang scope_colon =
      lang_cat (lang_cat {''(''} (lang_cat {w. w \<noteq> [] \<and> CHR 0x0A \<notin> set w} {'')''}) \<union> {[]}) {'':''}"
    by (simp add: scope_colon_def Opt_def lang_one_or_more_any)
  also have "\<dots> = {'':''} \<union> {''('' @ scope @ ''):'' | scope. scope \<noteq> [] \<and> CHR 0x0A \<notin> set scope}"
    unfolding lang_cat_def by auto
  finally show ?thesis .
qed

lemma prefix_match_tag:
  "prefix_match (Cat (lit_string t) scope_colon) msg \<longleftrightarrow> conventional_with t msg"
proof -
  have "prefix_match (Cat (lit_string t) scope_colon) msg \<longleftrightarrow>
          (\<exists>u v. msg = u @ v \<and> u \<in> lang_cat {t} (lang scope_colon))"
    by (simp add: prefix_match_lang lang_lit_string)
  also have "\<dots> \<longleftrightarrow> (\<exists>w v. w \<in> lang scope_colon \<and> msg = t @ w @ v)"
  proof
    assume "\<exists>u v. msg = u @ v \<and> u \<in> lang_cat {t} (lang scope_colon)"
    then show "\<exists>w v. w \<in> lang scope_colon \<and> msg = t @ w @ v"
      unfolding lang_cat_def by auto
  next
    assume "\<exists>w v. w \<in> lang scope_colon \<and> msg = t @ w @ v"
    then obtain w v where wv: "w \<in> lang scope_colon" "msg = t @ w @ v" by blast
    then have "msg = (t @ w) @ v \<and> t @ w \<in> lang_cat {t} (lang scope_colon)"
      unfolding lang_cat_def by auto
    then show "\<exists>u v. msg = u @ v \<and> u \<in> lang_cat {t} (lang scope_colon)" by blast
  qed
  also have "\<dots> \<longleftrightarrow> conventional_with t msg"
    unfolding lang_scope_colon conventional_with_def by auto
  finally show ?thesis .
qed

lemma lang_alternatives: "lang (foldr (\<lambda>t r. Alt (lit_string t) r) ts Fail) = set ts"
  by (induction ts) (auto simp add: lang_lit_string)

lemma prefix_match_regex: "prefix_match conventional_regex msg \<longleftrightarrow> is_conventional msg"
proof -
  have "prefix_match conventional_regex msg \<longleftrightarrow>
          (\<exists>u v. msg = u @ v \<and> u \<in> lang_cat (set commit_type_tags) (lang scope_colon))"
    by (simp add: prefix_match_lang conventional_regex_def lang_alternatives)
  also have "\<dots> \<longleftrightarrow> (\<exists>t\<in>set commit_type_tags. \<exists>u v. msg = u @ v \<and> u \<in> lang_cat {t} (lang scope_colon))"
    unfolding lang_cat_def by blast
  also have "\<dots> \<longleftrightarrow> (\<exists>t\<in>set commit_type_tags. prefix_match (Cat (lit_string t) scope_colon) msg)"
    by (simp add: prefix_match_lang lang_lit_string)
  also have "\<dots> \<longleftrightarrow> is_conventional msg"
    by (simp add: prefix_match_tag is_conventional_def)
  finally show ?thesis .
qed

lemma match_group1_spec: "match_group1 msg = find (\<lambda>t. conventional_with t msg) commit_type_tags"
  by (simp add: match_group1_def prefix_match_tag)

lemma conventional_with_prefix: "conventional_with t msg \<Longrightarrow> \<exists>r. msg = t @ r"
  unfolding conventional_with_def by auto

lemma tags_not_nested:
  assumes "t \<in> set commit_type_tags" "t' \<in> set commit_type_tags" "t @ r = t' @ r'"
  shows "t = t'"
  using assms by (auto simp add: commit_type_tags_def)

lemma conventional_with_unique:
  assumes "t \<in> set commit_type_tags" "t' \<in> set commit_type_tags"
    and "conventional_with t msg" "conventional_with t' msg"
  shows "t = t'"
proof -
  from assms(3) obtain r where r: "msg = t @ r" using conventional_with_prefix by blast
  from assms(4) obtain r' where r': "msg = t' @ r'" using conventional_with_prefix by blast
  from r r' have "t @ r = t' @ r'" by simp
  with assms(1,2) show ?thesis by (rule tags_not_nested)
qed

lemma find_unique:
  assumes "t \<in> set ts" and "\<And>t'. t' \<in> set ts \<Longrightarrow> P t' \<Longrightarrow> P t \<Longrightarrow> t' = t"
  shows "find P ts = Some t \<longleftrightarrow> P t"
proof
  assume "find P ts = Some t"
  then show "P t" by (auto simp add: find_Some_iff)
next
  assume p: "P t"
  with assms(1) have "find P ts \<noteq> None" by (auto simp add: find_None_iff)
  then obtain t' where t': "find P ts = Some t'" by auto
  then have "P t'" "t' \<in> set ts" by (auto simp add: find_Some_iff)
  with p have "t' = t" using assms(2) by blast
  with t' show "find P ts = Some t" by simp
qed

lemma match_group1_tag:
  assumes "t \<in> set commit_type_tags"
  shows "match_group1 msg = Some t \<longleftrightarrow> conventional_with t msg"
  unfolding match_group1_spec
  using assms conventional_with_unique by (intro find_unique) auto

lemma match_group1_conventional: "match_group1 msg \<noteq> None \<longleftrightarrow> is_conventional msg"
  by (auto simp add: match_group1_spec is_conventional_def find_None_iff)

lemma match_group1_in_tags: "match_group1 msg = Some t \<Longrightarrow> t \<in> set commit_type_tags"
  by (auto simp add: match_group1_def find_Some_iff)

lemma fold_patterns:
  assumes "distinct ks" and "\<And>c t. g c = Some t \<Longrightarrow> t \<in> set ks"
  shows "fold (\<lambda>c q. case g c of None \<Rightarrow> q | Some t \<Rightarrow> incr t q) cs (map (\<lambda>k. (k, f k)) ks) =
           map (\<lambda>k. (k, f k + length (filter (\<lambda>c. g c = Some k) cs))) ks"
proof (induction cs arbitrary: f)
  case Nil show ?case by simp
next
  case (Cons c cs)
  show ?case
  proof (cases "g c")
    case None
    then show ?thesis by (simp add: Cons)
  next
    case (Some t)
    then have t: "t \<in> set ks" by (rule assms(2))
    have "incr t (map (\<lambda>k. (k, f k)) ks) = map (\<lambda>k. (k, if k = t then Suc (f k) else f k)) ks"
      using assms(1) t by (simp add: incr_map)
    then show ?thesis using Some by (simp add: Cons)
  qed
qed

lemma int_truediv_value:
  assumes "int_truediv a b = Inr x"
  shows "b \<noteq> 0 \<and> x = fl (of_int a / of_int b)"
  using assms by (auto simp add: int_truediv_def split: if_splits pyfloat.splits)

lemma analyze_commit_messages_counts:
  assumes "analyze_commit_messages cs = Inr m"
  shows "total_commits m = length cs \<and>
         conventional_commits m = length (filter (\<lambda>c. match_group1 (c_message c) \<noteq> None) cs) \<and>
         commit_types m =
           fold (\<lambda>c q. case match_group1 (c_message c) of None \<Rightarrow> q | Some t \<Rightarrow> incr t q) cs
             (map (\<lambda>t. (t, 0)) commit_type_tags) \<and>
         conventional_percentage m =
           (if cs = [] then 0
            else fmul (fl (of_nat (conventional_commits m) / of_nat (length cs))) (Float 100))"
  using assms
  by (auto simp add: analyze_commit_messages_def fold_message_step
      split: if_splits sum.splits dest!: int_truediv_value)

lemma sample_messages:
  "analyze_commit_messages sample_commits =
     Inr \<lparr>total_commits = 3, avg_message_length = Float 10, conventional_commits = 2,
          conventional_percentage = Float (2345624805922133 / 35184372088832),
          commit_types = [(''feat'', 1), (''fix'', 1), (''docs'', 0), (''style'', 0),
                          (''refactor'', 0), (''test'', 0), (''chore'', 0)]\<rparr>"
  by code_simp

text \<open>
  Claim C6, as the code has it. The pattern matches exactly the messages that start with
  one of the seven tags, followed by a colon or by a parenthesized scope and a colon. The
  analysis counts the commits with such a message, counts under each tag the commits whose
  message is conventional with that tag, and stores as percentage the float
  \<open>count / total * 100\<close>, unrounded. For the messages \<^verbatim>\<open>feat: a\<close>,
  \<^verbatim>\<open>random text\<close> and \<^verbatim>\<open>fix(core): b\<close> the count is 2, the counts by type are 1
  for feat, 1 for fix and 0 for the others, the percentage is the float
  66.66666666666666, and the report prints it with one decimal, as 66.7.
\<close>

theorem conventional_messages:
  assumes "analyze_commit_messages cs = Inr m"
  shows "(prefix_match conventional_regex msg \<longleftrightarrow> is_conventional msg) \<and>
         total_commits m = length cs \<and>
         conventional_commits m = length (filter (\<lambda>c. is_conventional (c_message c)) cs) \<and>
         commit_types m =
           map (\<lambda>t. (t, length (filter (\<lambda>c. conventional_with t (c_message c)) cs)))
             commit_type_tags \<and>
         conventional_percentage m =
           (if cs = [] then 0
            else fmul (fl (of_nat (conventional_commits m) / of_nat (length cs))) (Float 100)) \<and>
         map c_message sample_commits = [''feat: a'', ''random text'', ''fix(core): b''] \<and>
         analyze_commit_messages sample_commits =
           Inr \<lparr>total_commits = 3, avg_message_length = Float 10, conventional_commits = 2,
                conventional_percentage = Float (2345624805922133 / 35184372088832),
                commit_types = [(''feat'', 1), (''fix'', 1), (''docs'', 0), (''style'', 0),
                                (''refactor'', 0), (''test'', 0), (''chore'', 0)]\<rparr> \<and>
         shown_conventional (generate_report 30 sample_commits) = Some (2, 3, Float (667 / 10))"
proof -
  note c = analyze_commit_messages_counts[OF assms]
  have f: "filter (\<lambda>c. match_group1 (c_message c) \<noteq> None) cs =
      filter (\<lambda>c. is_conventional (c_message c)) cs"
    by (rule filter_cong) (simp_all only: match_group1_conventional)
  from c have "conventional_commits m =
      length (filter (\<lambda>c. match_group1 (c_message c) \<noteq> None) cs)" by blast
  then have n: "conventional_commits m = length (filter (\<lambda>c. is_conventional (c_message c)) cs)"
    by (simp only: f)
  have d: "distinct commit_type_tags" by (simp add: commit_type_tags_def)
  have "commit_types m =
      map (\<lambda>t. (t, 0 + length (filter (\<lambda>c. match_group1 (c_message c) = Some t) cs)))
        commit_type_tags"
    using c fold_patterns[OF d, of "\<lambda>c. match_group1 (c_message c)" cs "\<lambda>t. 0"]
      match_group1_in_tags by simp
  also have "\<dots> =
      map (\<lambda>t. (t, length (filter (\<lambda>c. conventional_with t (c_message c)) cs))) commit_type_tags"
    by (rule map_cong) (simp_all add: match_group1_tag)
  finally have t: "commit_types m =
      map (\<lambda>t. (t, length (filter (\<lambda>c. conventional_with t (c_message c)) cs))) commit_type_tags" .
  have s: "map c_message sample_commits = [''feat: a'', ''random text'', ''fix(core): b'']"
    by (simp add: sample_commits_def sample_commit_def)
  have r: "shown_conventional (generate_report 30 sample_commits) = Some (2, 3, Float (667 / 10))"
    by code_simp
  from c n t s r sample_messages prefix_match_regex show ?thesis by blast
qed

theorem conventional_messages_witness:
  "analyze_commit_messages sample_commits =
     Inr \<lparr>total_commits = 3, avg_message_length = Float 10, conventional_commits = 2,
          conventional_percentage = Float (2345624805922133 / 35184372088832),
          commit_types = [(''feat'', 1), (''fix'', 1), (''docs'', 0), (''style'', 0),
                          (''refactor'', 0), (''test'', 0), (''chore'', 0)]\<rparr> \<and>
   length (filter (\<lambda>c. is_conventional (c_message c)) sample_commits) = 2 \<and>
   length (filter (\<lambda>c. conventional_with ''fix'' (c_message c)) sample_commits) = 1"
proof -
  let ?m = "\<lparr>total_commits = 3, avg_message_length = Float 10, conventional_commits = 2,
          conventional_percentage = Float (2345624805922133 / 35184372088832),
          commit_types = [(''feat'', 1), (''fix'', 1), (''docs'', 0), (''style'', 0),
                          (''refactor'', 0), (''test'', 0), (''chore'', 0)]\<rparr>"
  have h: "analyze_commit_messages sample_commits = Inr ?m" by (rule sample_messages)
  have a: "conventional_commits ?m =
      length (filter (\<lambda>c. is_conventional (c_message c)) sample_commits)"
    using conventional_messages[OF h] by blast
  have b: "commit_types ?m =
      map (\<lambda>t. (t, length (filter (\<lambda>c. conventional_with t (c_message c)) sample_commits)))
        commit_type_tags"
    using conventional_messages[OF h] by blast
  from a have a': "length (filter (\<lambda>c. is_conventional (c_message c)) sample_commits) = 2"
    by simp
  from b have b': "length (filter (\<lambda>c. conventional_with ''fix'' (c_message c)) sample_commits) = 1"
    by (simp add: commit_type_tags_def)
  from h a' b' show ?thesis by blast
qed

text \<open>The claim as stated fails in its percentage: the value stored for the three messages
  is not 66.67, which as a float is another number, and the report shows 66.7.\<close>

theorem conventional_percentage_counterexample:
  "analyze_commit_messages sample_commits =
     Inr \<lparr>total_commits = 3, avg_message_length = Float 10, conventional_commits = 2,
          conventional_percentage = Float (2345624805922133 / 35184372088832),
          commit_types = [(''feat'', 1), (''fix'', 1), (''docs'', 0), (''style'', 0),
                          (''refactor'', 0), (''test'', 0), (''chore'', 0)]\<rparr> \<and>
   Float (2345624805922133 / 35184372088832) \<noteq> fl (6667 / 100) \<and>
   shown_conventional (generate_report 30 sample_commits) = Some (2, 3, Float (667 / 10)) \<and>
   Float (667 / 10) \<noteq> Float (6667 / 100)"
  by code_simp

section \<open>Commit analyzer: file churn\<close>

lemma map_fst_incr: "set (map fst (incr k kvs)) = insert k (set (map fst kvs))"
  by (induction k kvs rule: incr.induct) auto

lemma keys_incr: "fst ` set (incr k kvs) = insert k (fst ` set kvs)"
  using map_fst_incr[of k kvs] by simp

lemma file_step_keys:
  "[] \<notin> fst ` set (fst acc) \<Longrightarrow> [] \<notin> fst ` set (fst (file_step file acc))"
  by (cases acc) (simp add: file_step_def Let_def keys_incr)

lemma fold_file_step_keys:
  "[] \<notin> fst ` set (fst acc) \<Longrightarrow> [] \<notin> fst ` set (fst (fold file_step fs acc))"
  by (induction fs arbitrary: acc) (simp_all add: file_step_keys)

lemma fold_commits_keys:
  "[] \<notin> fst ` set (fst acc) \<Longrightarrow>
   [] \<notin> fst ` set (fst (fold (\<lambda>c. fold file_step (c_files c)) cs acc))"
  by (induction cs arbitrary: acc) (simp_all add: fold_file_step_keys)

lemma file_extensions_value:
  assumes "analyze_file_changes cs = Inr f"
  shows "file_extensions f =
           most_common (Some 10) (fst (fold (\<lambda>c. fold file_step (c_files c)) cs ([], [])))"
  using assms
  by (auto simp add: analyze_file_changes_def fold_change_step
      split: prod.splits if_splits sum.splits)

lemma empty_extension_never_counted:
  assumes "analyze_file_changes cs = Inr f"
  shows "[] \<notin> fst ` set (file_extensions f)"
proof -
  have "[] \<notin> fst ` set (fst (fold (\<lambda>c. fold file_step (c_files c)) cs ([], [])))"
    by (rule fold_commits_keys) simp
  moreover have "set (file_extensions f) \<subseteq>
      set (fst (fold (\<lambda>c. fold file_step (c_files c)) cs ([], [])))"
    unfolding file_extensions_value[OF assms] by (rule set_most_common)
  ultimately show ?thesis by blast
qed


lemma file_step_apply:
  "file_step file (exts, changed) =
     (fold incr (filter (\<lambda>e. e \<noteq> []) [path_suffix (f_name file)]) exts,
      incr (f_name file) changed)"
  by (simp add: file_step_def Let_def)

lemma fold_file_step:
  "fold file_step fs (exts, changed) =
     (fold incr (filter (\<lambda>e. e \<noteq> []) (map path_suffix (map f_name fs))) exts,
      fold incr (map f_name fs) changed)"
proof (induction fs arbitrary: exts changed)
  case Nil show ?case by simp
next
  case (Cons x xs)
  show ?case by (simp add: file_step_apply Cons)
qed

lemma fold_commit_files:
  "fold (\<lambda>c. fold file_step (c_files c)) cs (exts, changed) =
     (fold incr (counted_extensions cs) exts, fold incr (changed_names cs) changed)"
proof (induction cs arbitrary: exts changed)
  case Nil show ?case by (simp add: counted_extensions_def changed_names_def)
next
  case (Cons c cs)
  show ?case
    by (simp add: fold_file_step Cons counted_extensions_def changed_names_def)
qed

lemma analyze_file_changes_counts:
  assumes "analyze_file_changes cs = Inr f"
  shows "file_extensions f = most_common (Some 10) (counter (counted_extensions cs)) \<and>
         most_changed_files f = most_common (Some 10) (counter (changed_names cs))"
  using assms
  by (auto simp add: analyze_file_changes_def fold_change_step fold_commit_files counter_def
      split: if_splits sum.splits)

lemma counter_has: "y \<in> set xs \<Longrightarrow> (y, count_list xs y) \<in> set (counter xs)"
  by (simp add: counter_eq)

lemma sorted_wrt_take_drop:
  assumes "sorted_wrt P xs"
  shows "\<forall>a\<in>set (take n xs). \<forall>b\<in>set (drop n xs). P a b"
proof -
  have "sorted_wrt P (take n xs @ drop n xs)" using assms by simp
  then show ?thesis unfolding sorted_wrt_append by blast
qed

lemma most_common_top: "top_by_count n xs (most_common (Some (int n)) (counter xs))"
proof -
  let ?f = "\<lambda>kc::'a \<times> nat. - int (snd kc)"
  let ?ranked = "sort_key ?f (counter xs)"
  let ?sel = "most_common (Some (int n)) (counter xs)"
  have sel: "?sel = take n ?ranked" by (simp add: most_common_def)
  have len: "length ?sel \<le> n" by (simp add: sel)
  have mem: "\<forall>kc\<in>set ?sel. fst kc \<in> set xs \<and> snd kc = count_list xs (fst kc)"
    using set_most_common[of "Some (int n)" "counter xs"] counter_member[of _ xs] by blast
  have "sorted (map ?f ?ranked)" by (rule sorted_sort_key)
  then have srt: "sorted_wrt (\<lambda>a b. snd b \<le> snd a) ?ranked"
    by (simp add: sorted_map)
  have ord: "sorted_wrt (\<lambda>a b. snd b \<le> snd a) ?sel"
    unfolding sel using srt by (rule sorted_wrt_take)
  have cross: "\<forall>a\<in>set (take n ?ranked). \<forall>b\<in>set (drop n ?ranked). snd b \<le> snd a"
    using srt by (rule sorted_wrt_take_drop)
  have out: "\<forall>y\<in>set xs. y \<notin> fst ` set ?sel \<longrightarrow> (\<forall>kc\<in>set ?sel. count_list xs y \<le> snd kc)"
  proof (intro ballI impI)
    fix y kc assume y: "y \<in> set xs" "y \<notin> fst ` set ?sel" and kc: "kc \<in> set ?sel"
    have "(y, count_list xs y) \<in> set ?ranked" using counter_has[OF y(1)] by simp
    then have "(y, count_list xs y) \<in> set (take n ?ranked @ drop n ?ranked)"
      by (simp only: append_take_drop_id)
    then have "(y, count_list xs y) \<in> set (take n ?ranked) \<union> set (drop n ?ranked)"
      by (simp only: set_append)
    moreover have "(y, count_list xs y) \<notin> set (take n ?ranked)"
      using y(2) unfolding sel by force
    ultimately have "(y, count_list xs y) \<in> set (drop n ?ranked)" by blast
    with cross kc show "count_list xs y \<le> snd kc" unfolding sel by force
  qed
  from len mem ord out show ?thesis unfolding top_by_count_def by blast
qed

lemma file_churn_counts:
  assumes "analyze_file_changes cs = Inr f"
  shows "file_extensions f = most_common (Some 10) (counter (counted_extensions cs)) \<and>
         most_changed_files f = most_common (Some 10) (counter (changed_names cs)) \<and>
         top_by_count 10 (counted_extensions cs) (file_extensions f) \<and>
         top_by_count 10 (changed_names cs) (most_changed_files f)"
proof -
  have t: "top_by_count 10 xs (most_common (Some 10) (counter xs))" for xs :: "string list"
    using most_common_top[of 10 xs] by simp
  show ?thesis
    using analyze_file_changes_counts[OF assms] t by simp
qed

text \<open>
  Claim C8. The claim does not hold of the code. The report renders an empty extension
  as \<^verbatim>\<open>(no extension)\<close>, but the counting loop counts an extension only when it is
  not empty, so no empty extension ever reaches the report. At the log of one commit that
  changes \<^verbatim>\<open>Makefile\<close> and \<^verbatim>\<open>src/a.py\<close>, the change of \<^verbatim>\<open>Makefile\<close> is
  counted among the changed files and under no extension, and the file types of the
  report are \<^verbatim>\<open>.py\<close> alone.
\<close>

theorem extensionless_file_not_counted:
  "parse_log sample_fromiso makefile_log = Inr [makefile_commit] \<and>
   path_suffix ''Makefile'' = [] \<and>
   analyze_file_changes [makefile_commit] =
     Inr \<lparr>total_additions = 13, total_deletions = 3, net_lines = 10,
          avg_additions_per_commit = Float 13, avg_deletions_per_commit = Float 3,
          file_extensions = [(''.py'', 1)],
          most_changed_files = [(''Makefile'', 1), (''src/a.py'', 1)]\<rparr> \<and>
   shown_file_types (generate_report 30 [makefile_commit]) = [(''.py'', 1)]"
  by code_simp

end
